theory Spec2Isabelle
  imports Main
begin

section \<open>Strings\<close>

text \<open>
  The program is \<^verbatim>\<open>src/bin/otree.js\<close>.  A JavaScript string is modelled as a
  \<^typ>\<open>string\<close>, one \<^typ>\<open>char\<close> per code unit; the model covers text whose code
  units are below 256.  Every pattern and keyword of the program is ASCII.
  Lower-casing and the case folding of the regular expression are modelled on the
  letters \<open>A\<close>..\<open>Z\<close>: on the code units from 128 on JavaScript's conversions neither
  yield nor take an ASCII letter, and their results are only ever compared with ASCII
  text, so leaving those code units alone changes no answer of the classifier.
\<close>

definition upperAlphabet :: string where
  "upperAlphabet = ''ABCDEFGHIJKLMNOPQRSTUVWXYZ''"

definition lowerAlphabet :: string where
  "lowerAlphabet = ''abcdefghijklmnopqrstuvwxyz''"

definition toLowerChar :: "char \<Rightarrow> char" where
  "toLowerChar c =
     (case map_of (zip upperAlphabet lowerAlphabet) c of Some d \<Rightarrow> d | None \<Rightarrow> c)"

definition toUpperChar :: "char \<Rightarrow> char" where
  "toUpperChar c =
     (case map_of (zip lowerAlphabet upperAlphabet) c of Some d \<Rightarrow> d | None \<Rightarrow> c)"

text \<open>\<^verbatim>\<open>text.toLowerCase()\<close>\<close>

definition toLowerCase :: "string \<Rightarrow> string" where
  "toLowerCase s = map toLowerChar s"

text \<open>\<^verbatim>\<open>s.startsWith(k)\<close>\<close>

definition startsWith :: "string \<Rightarrow> string \<Rightarrow> bool" where
  "startsWith s k = (take (length k) s = k)"

text \<open>\<^verbatim>\<open>s.includes(k)\<close>: \<open>k\<close> occurs in \<open>s\<close> at some position.\<close>

fun includes_str :: "string \<Rightarrow> string \<Rightarrow> bool" where
  "includes_str [] k = (k = [])"
| "includes_str (c # cs) k = (startsWith (c # cs) k \<or> includes_str cs k)"

text \<open>
  The white space that \<^verbatim>\<open>trim()\<close> strips, as far as a \<^typ>\<open>char\<close> can hold it: tab,
  line feed, vertical tab, form feed, carriage return, space and the no-break space
  U+00A0.
\<close>

definition isWhiteSpace :: "char \<Rightarrow> bool" where
  "isWhiteSpace c =
     (c \<in> set [CHR 0x09, CHR 0x0A, CHR 0x0B, CHR 0x0C, CHR 0x0D, CHR 0x20, CHR 0xA0])"

definition trim :: "string \<Rightarrow> string" where
  "trim s = rev (dropWhile isWhiteSpace (rev (dropWhile isWhiteSpace s)))"

text \<open>
  \<^verbatim>\<open>chunk.split("\n")\<close>: the pieces between line feeds; there is always at least one,
  and a chunk that ends in a line feed has an empty last piece.
\<close>

function split_lines :: "string \<Rightarrow> string list" where
  "split_lines s =
     (case dropWhile (\<lambda>c. c \<noteq> CHR 0x0A) s of
        [] \<Rightarrow> [s]
      | _ # rest \<Rightarrow> takeWhile (\<lambda>c. c \<noteq> CHR 0x0A) s # split_lines rest)"
  by pat_completeness auto
termination
proof (relation "measure length")
  show "wf (measure length)" by simp
  fix s :: string and x rest
  assume "dropWhile (\<lambda>c. c \<noteq> CHR 0x0A) s = x # rest"
  then have "Suc (length rest) \<le> length s"
    using length_dropWhile_le [of "\<lambda>c. c \<noteq> CHR 0x0A" s] by simp
  then show "(rest, s) \<in> measure length" by simp
qed

declare split_lines.simps [simp del]

text \<open>
  \<^verbatim>\<open>[...new Set(xs)]\<close>: a \<open>Set\<close> keeps its members in insertion order, and adding a
  member that is already there (the same string) changes nothing.
\<close>

definition setAdd :: "'a list \<Rightarrow> 'a \<Rightarrow> 'a list" where
  "setAdd acc x = (if x \<in> set acc then acc else acc @ [x])"

definition newSet :: "'a list \<Rightarrow> 'a list" where
  "newSet xs = foldl setAdd [] xs"

section \<open>The regular expression of \<open>extractUrls\<close>\<close>

text \<open>
  The syntax of the regular expressions the program uses: a character, the class
  \<^verbatim>\<open>\d\<close>, concatenation, alternation \<^verbatim>\<open>|\<close>, the greedy quantifiers \<^verbatim>\<open>?\<close> and \<^verbatim>\<open>+\<close>.
\<close>

datatype regex =
    Empty
  | Lit char
  | Digit
  | Seq regex regex
  | Alt regex regex
  | Opt regex
  | Plus regex

definition isDigit :: "char \<Rightarrow> bool" where
  "isDigit c = (c \<in> set ''0123456789'')"

text \<open>
  The backtracking matcher under the flag \<^verbatim>\<open>i\<close>.  \<open>conts r s\<close> lists what is left of
  \<open>s\<close> after each way \<open>r\<close> can match at the start of \<open>s\<close>, in the order in which the
  engine tries them: the left alternative before the right one, one more repetition before
  stopping.  An iteration of \<^verbatim>\<open>+\<close> that consumes nothing is not repeated.
\<close>

fun conts :: "regex \<Rightarrow> string \<Rightarrow> string list" where
  "conts Empty s = [s]"
| "conts (Lit c) s =
     (case s of [] \<Rightarrow> [] | x # xs \<Rightarrow> if toUpperChar x = toUpperChar c then [xs] else [])"
| "conts Digit s = (case s of [] \<Rightarrow> [] | x # xs \<Rightarrow> if isDigit x then [xs] else [])"
| "conts (Seq a b) s = concat (map (conts b) (conts a s))"
| "conts (Alt a b) s = conts a s @ conts b s"
| "conts (Opt a) s = conts a s @ [s]"
| "conts (Plus a) s =
     concat (map (\<lambda>s'. (if length s' < length s then conts (Plus a) s' else []) @ [s'])
                 (conts a s))"

text \<open>
  \<^verbatim>\<open>text.match(re) || []\<close> for a regular expression with the flag \<^verbatim>\<open>g\<close>: the matches
  from left to right.  At each position the first way to match wins; the search goes on
  where the match ended, or one code unit further when nothing matched or the match was
  empty.
\<close>

fun matchAll :: "regex \<Rightarrow> string \<Rightarrow> string list" where
  "matchAll r [] = (case conts r [] of [] \<Rightarrow> [] | _ # _ \<Rightarrow> [[]])"
| "matchAll r (c # cs) =
     (case conts r (c # cs) of
        [] \<Rightarrow> matchAll r cs
      | rest # _ \<Rightarrow>
          if length rest < length (c # cs)
          then take (length (c # cs) - length rest) (c # cs) # matchAll r rest
          else [] # matchAll r cs)"

fun lit :: "string \<Rightarrow> regex" where
  "lit [] = Empty"
| "lit (c # cs) = Seq (Lit c) (lit cs)"

text \<open>
  \<^verbatim>\<open>/https?:\/\/localhost:\d+|http:\/\/127\.0\.0\.1:\d+|localhost:\d+/gi\<close>
\<close>

definition urlPattern :: regex where
  "urlPattern =
     Alt (Seq (lit ''http'') (Seq (Opt (Lit (CHR ''s'')))
            (Seq (lit ''://localhost:'') (Plus Digit))))
    (Alt (Seq (lit ''http://127.0.0.1:'') (Plus Digit))
         (Seq (lit ''localhost:'') (Plus Digit)))"

section \<open>The line classifier\<close>

definition extractUrls :: "string \<Rightarrow> string list" where
  "extractUrls text = newSet (matchAll urlPattern text)"

definition errorKeywords :: "string list" where
  "errorKeywords =
     [''error'', ''failed'', ''failure'', ''exception'', ''fatal'', ''cannot'',
      ''unable to'', ''not found'', ''enoent'', ''eacces'', ''warn'', ''warning'']"

definition isErrorLine :: "string \<Rightarrow> bool" where
  "isErrorLine text = list_ex (includes_str (toLowerCase text)) errorKeywords"

definition importantKeywords :: "string list" where
  "importantKeywords =
     [''ready'', ''listening'', ''started'', ''running on'', ''available on'',
      ''local:'', ''server running'']"

definition shouldShowLine :: "string \<Rightarrow> bool" where
  "shouldShowLine line =
     (if extractUrls line \<noteq> [] then True
      else if isErrorLine line then True
      else if list_ex (includes_str (toLowerCase line)) importantKeywords then True
      else False)"

section \<open>Running a command in the selected worktrees\<close>

text \<open>One entry of \<^verbatim>\<open>parseWorktrees\<close>.\<close>

record worktree =
  path :: string
  branch :: string
  commit :: string

text \<open>One entry of \<^verbatim>\<open>processInfos\<close>; \<open>urls\<close> and \<open>output\<close> are arrays that only grow.\<close>

record processInfo =
  worktree :: worktree
  urls :: "string list"
  "output" :: "string list"

datatype color =
    Cyan | Yellow | Green | Magenta | Blue | Red | Gray
  | GreenBright | YellowBright | BlueBright | MagentaBright | CyanBright

definition colors :: "color list" where
  "colors = [Cyan, Yellow, Green, Magenta, Blue, Red, Gray,
             GreenBright, YellowBright, BlueBright, MagentaBright, CyanBright]"

definition getWorktreeColor :: "nat \<Rightarrow> color" where
  "getWorktreeColor index = colors ! (index mod length colors)"

text \<open>
  Why a promise of \<^verbatim>\<open>runCommandInWorktree\<close> was rejected: the child closed with a code
  other than 0 (\<open>None\<close> is the code \<^verbatim>\<open>null\<close> of a child ended by a signal; the message is
  \<^verbatim>\<open>Command exited with code ...\<close>), or the child raised \<^verbatim>\<open>error\<close> with a message.
\<close>

datatype reason = ExitedWithCode "int option" | SpawnError string

datatype promise = Pending | Fulfilled | Rejected reason

text \<open>
  What \<^verbatim>\<open>console.log\<close> printed, one constructor per call site of \<^verbatim>\<open>runCommand\<close>.
  \<^item> \<open>TaggedLine c b hl line\<close>: \<^verbatim>\<open>${prefix} ${line}\<close>, where the prefix is
    \<^verbatim>\<open>[branch]\<close> in the worktree's colour \<open>c\<close>, and \<open>hl\<close> is the colour put on the
    line itself (\<open>Some Red\<close>, \<open>Some Green\<close>, or none);
  \<^item> \<open>RouteLine c b u\<close>: the prefix, the gray tag \<^verbatim>\<open>Route\<close> and the green URL \<open>u\<close>;
  \<^item> \<open>StatusLine ok c b p\<close>: the check mark or the cross, the branch in its colour, the path;
  \<^item> \<open>UrlLine u\<close> and \<open>UrlRouteLine u\<close>: a URL of a worktree's block and its route variant;
  \<^item> \<open>ErrorLine r\<close>: \<^verbatim>\<open>Error:\<close> and the message of the rejection;
  \<^item> \<open>ServiceLine u\<close> and \<open>ServiceRouteLine u\<close>: a URL of the section
    \<^verbatim>\<open>All running services\<close> and its route variant.
\<close>

datatype console_line =
    NoWorktreesFound
  | NoWorktreesSelected
  | RunningBanner string nat
  | TaggedLine color string "color option" string
  | RouteLine color string string
  | SummaryHeader
  | StatusLine bool color string string
  | UrlLine string
  | UrlRouteLine string
  | ErrorLine reason
  | EmptyLine
  | ServicesHeader
  | ServiceLine string
  | ServiceRouteLine string

text \<open>
  The route is \<open>None\<close> for \<^verbatim>\<open>null\<close>; the test \<^verbatim>\<open>if (route)\<close> also fails on the empty string.
\<close>

definition truthy :: "string option \<Rightarrow> bool" where
  "truthy r = (case r of None \<Rightarrow> False | Some s \<Rightarrow> s \<noteq> [])"

text \<open>\<^verbatim>\<open>route.startsWith("/") ? route : `/${route}`\<close>\<close>

definition normalizedRoute :: "string \<Rightarrow> string" where
  "normalizedRoute r = (if startsWith r ''/'' then r else ''/'' @ r)"

text \<open>The body of \<^verbatim>\<open>chunk.split("\n").forEach\<close>: what one line of a chunk prints.\<close>

definition printLine :: "bool \<Rightarrow> string option \<Rightarrow> nat \<Rightarrow> worktree \<Rightarrow> string \<Rightarrow> console_line list" where
  "printLine verbose route index wt line =
     (let trimmedLine = trim line; c = getWorktreeColor index; b = branch wt in
      if trimmedLine = [] then []
      else if verbose then [TaggedLine c b None line]
      else if shouldShowLine trimmedLine then
        (if isErrorLine trimmedLine then [TaggedLine c b (Some Red) line]
         else if extractUrls trimmedLine \<noteq> [] then
           TaggedLine c b (Some Green) line #
           (if truthy route
            then map (\<lambda>url. RouteLine c b (url @ normalizedRoute (the route)))
                     (extractUrls trimmedLine)
            else [])
         else [TaggedLine c b None line])
      else [])"

definition printChunk :: "bool \<Rightarrow> string option \<Rightarrow> nat \<Rightarrow> worktree \<Rightarrow> string \<Rightarrow> console_line list" where
  "printChunk verbose route index wt chunk =
     concat (map (printLine verbose route index wt) (split_lines chunk))"

text \<open>The two pushes at the head of the output callback.\<close>

definition recordChunk :: "string \<Rightarrow> processInfo \<Rightarrow> processInfo" where
  "recordChunk chunk info =
     info\<lparr>output := output info @ [chunk], urls := urls info @ extractUrls chunk\<rparr>"

text \<open>
  What the children do reaches the program as events, handled one at a time: a chunk of
  \<^verbatim>\<open>stdout\<close> or \<^verbatim>\<open>stderr\<close> of child \<open>i\<close>, its \<^verbatim>\<open>close\<close> with an exit code, or its
  \<^verbatim>\<open>error\<close>.  A run is given by the list of these events in the order of their arrival.
\<close>

datatype event = Data nat string | Close nat "int option" | Error nat string

record run_state =
  infos :: "processInfo list"
  promises :: "promise list"
  console :: "console_line list"

text \<open>A promise settles once; \<^verbatim>\<open>resolve\<close> and \<^verbatim>\<open>reject\<close> on a settled promise do nothing.\<close>

definition settle :: "promise \<Rightarrow> promise \<Rightarrow> promise" where
  "settle outcome p = (case p of Pending \<Rightarrow> outcome | _ \<Rightarrow> p)"

definition closeOutcome :: "int option \<Rightarrow> promise" where
  "closeOutcome code = (if code = Some 0 then Fulfilled else Rejected (ExitedWithCode code))"

fun handleEvent :: "bool \<Rightarrow> string option \<Rightarrow> run_state \<Rightarrow> event \<Rightarrow> run_state" where
  "handleEvent verbose route st (Data i chunk) =
     (if i < length (infos st)
      then st\<lparr>infos := (infos st)[i := recordChunk chunk (infos st ! i)],
              console := console st @ printChunk verbose route i (worktree (infos st ! i)) chunk\<rparr>
      else st)"
| "handleEvent verbose route st (Close i code) =
     (if i < length (promises st)
      then st\<lparr>promises := (promises st)[i := settle (closeOutcome code) (promises st ! i)]\<rparr>
      else st)"
| "handleEvent verbose route st (Error i msg) =
     (if i < length (promises st)
      then st\<lparr>promises := (promises st)[i := settle (Rejected (SpawnError msg)) (promises st ! i)]\<rparr>
      else st)"

text \<open>
  \<^verbatim>\<open>await Promise.allSettled(runPromises)\<close>: events are handled until no promise is
  pending.  \<open>None\<close>: the events end with a promise still pending, and the program waits
  for ever.
\<close>

fun awaitAllSettled :: "bool \<Rightarrow> string option \<Rightarrow> run_state \<Rightarrow> event list \<Rightarrow> run_state option" where
  "awaitAllSettled verbose route st evs =
     (if Pending \<notin> set (promises st) then Some st
      else case evs of
        [] \<Rightarrow> None
      | e # es \<Rightarrow> awaitAllSettled verbose route (handleEvent verbose route st e) es)"

text \<open>The body of \<^verbatim>\<open>processInfos.forEach\<close> in the summary.\<close>

definition summaryBlock :: "string option \<Rightarrow> nat \<Rightarrow> processInfo \<Rightarrow> promise \<Rightarrow> console_line list" where
  "summaryBlock route index info result =
     StatusLine (result = Fulfilled) (getWorktreeColor index)
                (branch (worktree info)) (path (worktree info)) #
     (if urls info \<noteq> []
      then concat (map (\<lambda>url. UrlLine url #
                          (if truthy route
                           then [UrlRouteLine (url @ normalizedRoute (the route))] else []))
                       (newSet (urls info)))
      else []) @
     (case result of Rejected r \<Rightarrow> [ErrorLine r] | _ \<Rightarrow> []) @
     [EmptyLine]"

text \<open>The section \<^verbatim>\<open>All running services\<close>.\<close>

definition allUrls :: "processInfo list \<Rightarrow> string list" where
  "allUrls processInfos = concat (map urls processInfos)"

definition servicesSection :: "string option \<Rightarrow> processInfo list \<Rightarrow> console_line list" where
  "servicesSection route processInfos =
     (let uniqueUrls = newSet (allUrls processInfos) in
      if uniqueUrls \<noteq> []
      then ServicesHeader #
           concat (map (\<lambda>url. ServiceLine url #
                          (if truthy route
                           then [ServiceRouteLine (url @ normalizedRoute (the route))] else []))
                       uniqueUrls) @
           [EmptyLine]
      else [])"

definition printSummary :: "string option \<Rightarrow> run_state \<Rightarrow> console_line list" where
  "printSummary route st =
     SummaryHeader #
     concat (map (\<lambda>index. summaryBlock route index (infos st ! index) (promises st ! index))
                 [0 ..< length (infos st)]) @
     servicesSection route (infos st)"

text \<open>
  What a call of \<^verbatim>\<open>runCommand\<close> did: the lines it printed, the children it spawned
  (working directory and command) in order, and how it ended: by returning, or in the
  \<^verbatim>\<open>catch\<close> block, which prints the message of the error and calls \<^verbatim>\<open>process.exit(1)\<close>.
\<close>

datatype ending = Returns | ExitsWith1 string

record run_result =
  printed :: "console_line list"
  spawned :: "(string \<times> string) list"
  ending :: ending

definition initialState :: "string \<Rightarrow> worktree list \<Rightarrow> run_state" where
  "initialState command selectedWorktrees =
     \<lparr>infos = map (\<lambda>wt. \<lparr>worktree = wt, urls = [], output = []\<rparr>) selectedWorktrees,
      promises = map (\<lambda>wt. Pending) selectedWorktrees,
      console = [RunningBanner command (length selectedWorktrees)]\<rparr>"

text \<open>
  \<^verbatim>\<open>runCommand\<close>.  \<open>listing\<close> is what \<^verbatim>\<open>git worktree list\<close> gave: the message of its
  failure, or the parsed worktrees.  \<open>useAll\<close> is \<^verbatim>\<open>options.all\<close>, \<open>selected\<close> the answer
  to the checkbox prompt, \<open>command\<close> and \<open>route\<close> the command and the route once flags,
  configuration and prompts have settled them, \<open>evs\<close> what the children do.
  \<open>None\<close>: the call never returns.
\<close>

definition runCommand ::
  "string + worktree list \<Rightarrow> bool \<Rightarrow> worktree list \<Rightarrow> string \<Rightarrow> string option \<Rightarrow> bool
     \<Rightarrow> event list \<Rightarrow> run_result option" where
  "runCommand listing useAll selected command route verbose evs =
     (case listing of
        Inl message \<Rightarrow> Some \<lparr>printed = [], spawned = [], ending = ExitsWith1 message\<rparr>
      | Inr worktrees \<Rightarrow>
          if worktrees = []
          then Some \<lparr>printed = [NoWorktreesFound], spawned = [], ending = Returns\<rparr>
          else
            let selectedWorktrees = (if useAll then worktrees else selected) in
            if selectedWorktrees = []
            then Some \<lparr>printed = [NoWorktreesSelected], spawned = [], ending = Returns\<rparr>
            else
              case awaitAllSettled verbose route (initialState command selectedWorktrees) evs of
                None \<Rightarrow> None
              | Some st \<Rightarrow>
                  Some \<lparr>printed = console st @ printSummary route st,
                        spawned = map (\<lambda>wt. (path wt, command)) selectedWorktrees,
                        ending = Returns\<rparr>)"

section \<open>Notions of the specification\<close>

text \<open>
  The members of a list without repetition, each at the place of its first occurrence.
\<close>

fun firstSeen :: "'a list \<Rightarrow> 'a list" where
  "firstSeen [] = []"
| "firstSeen (x # xs) = x # firstSeen (filter (\<lambda>y. y \<noteq> x) xs)"

text \<open>
  The four shapes of a URL, \<^verbatim>\<open>http://localhost:PORT\<close>, \<^verbatim>\<open>https://localhost:PORT\<close>,
  \<^verbatim>\<open>http://127.0.0.1:PORT\<close> and \<^verbatim>\<open>localhost:PORT\<close>: one of four heads, in any mix of
  upper and lower case, followed by a port of one or more digits.
\<close>

definition urlHeads :: "string list" where
  "urlHeads = [''http://localhost:'', ''https://localhost:'', ''http://127.0.0.1:'', ''localhost:'']"

definition isUrl :: "string \<Rightarrow> bool" where
  "isUrl u =
     list_ex (\<lambda>h. toLowerCase (take (length h) u) = h \<and> drop (length h) u \<noteq> [] \<and>
                   list_all isDigit (drop (length h) u)) urlHeads"

text \<open>
  The length of the URL that starts at the head of \<open>s\<close> and takes all the digits that
  follow, if there is one.
\<close>

definition urlLength :: "string \<Rightarrow> nat option" where
  "urlLength s =
     (case filter (\<lambda>h. toLowerCase (take (length h) s) = h \<and>
                        takeWhile isDigit (drop (length h) s) \<noteq> []) urlHeads of
        [] \<Rightarrow> None
      | h # _ \<Rightarrow> Some (length h + length (takeWhile isDigit (drop (length h) s))))"

text \<open>The URLs of a line from left to right, none starting inside another.\<close>

fun scanUrls :: "string \<Rightarrow> string list" where
  "scanUrls [] = []"
| "scanUrls (c # cs) =
     (case urlLength (c # cs) of
        None \<Rightarrow> scanUrls cs
      | Some n \<Rightarrow> take n (c # cs) # scanUrls (drop (n - 1) cs))"

text \<open>The chunks that child \<open>i\<close> wrote, in the order of their arrival.\<close>

fun chunksOf :: "nat \<Rightarrow> event list \<Rightarrow> string list" where
  "chunksOf i [] = []"
| "chunksOf i (Data j chunk # es) = (if j = i then chunk # chunksOf i es else chunksOf i es)"
| "chunksOf i (_ # es) = chunksOf i es"

text \<open>
  How child \<open>i\<close> ends according to the events: by its first \<^verbatim>\<open>close\<close> or \<^verbatim>\<open>error\<close>;
  \<open>Pending\<close> when there is none.
\<close>

fun outcomeOf :: "nat \<Rightarrow> event list \<Rightarrow> promise" where
  "outcomeOf i [] = Pending"
| "outcomeOf i (Data j chunk # es) = outcomeOf i es"
| "outcomeOf i (Close j code # es) = (if j = i then closeOutcome code else outcomeOf i es)"
| "outcomeOf i (Error j msg # es) =
     (if j = i then Rejected (SpawnError msg) else outcomeOf i es)"


text \<open>Readings of the printed lines.\<close>

fun statusOf :: "console_line \<Rightarrow> (bool \<times> string \<times> string) list" where
  "statusOf (StatusLine ok c b p) = [(ok, b, p)]"
| "statusOf _ = []"

fun errorOf :: "console_line \<Rightarrow> reason list" where
  "errorOf (ErrorLine r) = [r]"
| "errorOf _ = []"

fun urlOf :: "console_line \<Rightarrow> string list" where
  "urlOf (UrlLine u) = [u]"
| "urlOf _ = []"

fun urlRouteOf :: "console_line \<Rightarrow> string list" where
  "urlRouteOf (UrlRouteLine u) = [u]"
| "urlRouteOf _ = []"

fun serviceOf :: "console_line \<Rightarrow> string list" where
  "serviceOf (ServiceLine u) = [u]"
| "serviceOf _ = []"

fun serviceRouteOf :: "console_line \<Rightarrow> string list" where
  "serviceRouteOf (ServiceRouteLine u) = [u]"
| "serviceRouteOf _ = []"


fun isSummaryLine :: "console_line \<Rightarrow> bool" where
  "isSummaryLine NoWorktreesFound = False"
| "isSummaryLine NoWorktreesSelected = False"
| "isSummaryLine (RunningBanner command n) = False"
| "isSummaryLine (TaggedLine c b hl line) = False"
| "isSummaryLine (RouteLine c b u) = False"
| "isSummaryLine _ = True"

text \<open>
  The events that are handled before the wait ends: those up to the one with which the
  last of the children \<open>pending\<close> settles.
\<close>

fun settles :: "event \<Rightarrow> nat list \<Rightarrow> nat list" where
  "settles (Data i chunk) pending = pending"
| "settles (Close i code) pending = removeAll i pending"
| "settles (Error i msg) pending = removeAll i pending"

fun handledBy :: "nat list \<Rightarrow> event list \<Rightarrow> event list" where
  "handledBy pending [] = []"
| "handledBy pending (e # es) =
     (if pending = [] then [] else e # handledBy (settles e pending) es)"

definition handled :: "nat \<Rightarrow> event list \<Rightarrow> event list" where
  "handled n evs = handledBy [0 ..< n] evs"




text \<open>
  The blocks of the summary: for each status line its branch and path, and the URLs
  printed between it and the next status line.
\<close>

fun blockUrls :: "console_line list \<Rightarrow> ((string \<times> string) \<times> string list) list" where
  "blockUrls [] = []"
| "blockUrls (StatusLine ok c b p # ls) =
     ((b, p), concat (map urlOf (takeWhile (\<lambda>l. statusOf l = []) ls))) # blockUrls ls"
| "blockUrls (_ # ls) = blockUrls ls"

section \<open>Auxiliary notions\<close>

text \<open>\<open>s\<close> starts with the word \<open>w\<close>, case ignored.\<close>

definition ciStarts :: "string \<Rightarrow> string \<Rightarrow> bool" where
  "ciStarts s w = (length w \<le> length s \<and> toLowerCase (take (length w) s) = toLowerCase w)"

text \<open>What the pattern leaves of \<open>s\<close> when it matches the head \<open>h\<close> and then digits.\<close>

definition headMatch :: "string \<Rightarrow> string \<Rightarrow> string list" where
  "headMatch h s = (if ciStarts s h then conts (Plus Digit) (drop (length h) s) else [])"

text \<open>The condition under which \<open>urlLength\<close> takes the head \<open>h\<close>.\<close>

definition headCond :: "string \<Rightarrow> string \<Rightarrow> bool" where
  "headCond s h = (toLowerCase (take (length h) s) = h \<and> takeWhile isDigit (drop (length h) s) \<noteq> [])"

text \<open>The children whose promise is pending, in order.\<close>

definition pendingOf :: "run_state \<Rightarrow> nat list" where
  "pendingOf st = filter (\<lambda>i. promises st ! i = Pending) [0 ..< length (promises st)]"

section \<open>Sets in insertion order\<close>

lemma foldl_setAdd:
  "foldl setAdd acc xs = acc @ firstSeen (filter (\<lambda>x. x \<notin> set acc) xs)"
proof (induction xs arbitrary: acc)
  case Nil
  show ?case by simp
next
  case (Cons x xs)
  show ?case
  proof (cases "x \<in> set acc")
    case True
    then show ?thesis using Cons.IH [of acc] by (simp add: setAdd_def)
  next
    case False
    have "filter (\<lambda>y. y \<notin> set (acc @ [x])) xs = filter (\<lambda>y. y \<noteq> x) (filter (\<lambda>y. y \<notin> set acc) xs)"
      by (induction xs) auto
    then show ?thesis using False Cons.IH [of "acc @ [x]"] by (simp add: setAdd_def)
  qed
qed

lemma newSet_firstSeen: "newSet xs = firstSeen xs"
  by (simp add: newSet_def foldl_setAdd)

lemma set_firstSeen: "set (firstSeen xs) = set xs"
  by (induction xs rule: firstSeen.induct) auto

lemma distinct_firstSeen: "distinct (firstSeen xs)"
  by (induction xs rule: firstSeen.induct) (auto simp: set_firstSeen)

lemma firstSeen_filter: "firstSeen (filter P xs) = filter P (firstSeen xs)"
proof (induction xs rule: firstSeen.induct)
  case 1
  show ?case by simp
next
  case (2 x xs)
  have swap: "filter (\<lambda>y. y \<noteq> x) (filter P xs) = filter P (filter (\<lambda>y. y \<noteq> x) xs)"
    by (induction xs) auto
  show ?case
  proof (cases "P x")
    case True
    have "firstSeen (filter P (x # xs)) = x # firstSeen (filter (\<lambda>y. y \<noteq> x) (filter P xs))"
      using True by simp
    also have "\<dots> = x # filter P (firstSeen (filter (\<lambda>y. y \<noteq> x) xs))"
      unfolding swap using 2 by simp
    finally show ?thesis using True by simp
  next
    case False
    have "filter P xs = filter P (filter (\<lambda>y. y \<noteq> x) xs)"
      using False by (induction xs) auto
    then have "firstSeen (filter P xs) = filter P (firstSeen (filter (\<lambda>y. y \<noteq> x) xs))"
      using 2 by simp
    then show ?thesis using False by simp
  qed
qed

lemma firstSeen_append:
  "firstSeen (xs @ ys) = firstSeen xs @ filter (\<lambda>y. y \<notin> set xs) (firstSeen ys)"
proof (induction xs arbitrary: ys rule: firstSeen.induct)
  case 1
  show ?case by simp
next
  case (2 x xs)
  let ?f = "filter (\<lambda>y. y \<noteq> x)"
  have "firstSeen ((x # xs) @ ys) = x # firstSeen (?f xs @ ?f ys)"
    by simp
  also have "\<dots> = x # firstSeen (?f xs) @ filter (\<lambda>y. y \<notin> set (?f xs)) (firstSeen (?f ys))"
    using 2 [of "?f ys"] by simp
  also have "filter (\<lambda>y. y \<notin> set (?f xs)) (firstSeen (?f ys))
             = filter (\<lambda>y. y \<notin> set (x # xs)) (firstSeen ys)"
    unfolding firstSeen_filter filter_filter by (rule filter_cong) auto
  finally show ?case by simp
qed

lemma firstSeen_idem: "distinct xs \<Longrightarrow> firstSeen xs = xs"
proof (induction xs)
  case Nil
  show ?case by simp
next
  case (Cons a xs)
  have "filter (\<lambda>y. y \<noteq> a) xs = xs"
    using Cons.prems by (auto simp: filter_id_conv)
  then show ?case using Cons by simp
qed

lemma firstSeen_concat_map:
  "firstSeen (concat (map firstSeen xss)) = firstSeen (concat xss)"
proof (induction xss)
  case Nil
  show ?case by simp
next
  case (Cons xs xss)
  have "firstSeen (firstSeen xs @ concat (map firstSeen xss))
        = firstSeen xs @ filter (\<lambda>y. y \<notin> set xs) (firstSeen (concat (map firstSeen xss)))"
    by (simp add: firstSeen_append [of "firstSeen xs"] set_firstSeen firstSeen_idem distinct_firstSeen)
  then show ?case using Cons by (simp add: firstSeen_append [of xs])
qed

section \<open>Case folding\<close>

lemma lower_upper: "toLowerChar (toUpperChar c) = toLowerChar c"
  by (simp add: toUpperChar_def toLowerChar_def upperAlphabet_def lowerAlphabet_def)

lemma upper_lower: "toUpperChar (toLowerChar c) = toUpperChar c"
  by (simp add: toUpperChar_def toLowerChar_def upperAlphabet_def lowerAlphabet_def)

lemma upper_eq_iff: "(toUpperChar a = toUpperChar b) = (toLowerChar a = toLowerChar b)"
  by (metis lower_upper upper_lower)



section \<open>Starting with a word, case ignored\<close>

lemma ciStarts_Nil [simp]: "ciStarts s []"
  by (simp add: ciStarts_def toLowerCase_def)

lemma ciStarts_Cons:
  "ciStarts s (c # w) = (case s of [] \<Rightarrow> False | x # xs \<Rightarrow> toLowerChar x = toLowerChar c \<and> ciStarts xs w)"
  by (cases s) (auto simp: ciStarts_def toLowerCase_def)

lemma ciStarts_append:
  "ciStarts s (v @ w) = (ciStarts s v \<and> ciStarts (drop (length v) s) w)"
proof (induction v arbitrary: s)
  case Nil
  show ?case by simp
next
  case (Cons c v)
  show ?case by (cases s) (simp_all add: ciStarts_Cons Cons.IH)
qed

lemma ciStarts_take: "ciStarts s w \<Longrightarrow> ciStarts s (take k w)"
  using ciStarts_append [of s "take k w" "drop k w"] by simp

lemma ciStarts_same_length:
  "ciStarts s v \<Longrightarrow> ciStarts s w \<Longrightarrow> length v = length w \<Longrightarrow> toLowerCase v = toLowerCase w"
  by (simp add: ciStarts_def)

lemma ciStarts_common:
  assumes "ciStarts s v" and "ciStarts s w"
  shows "toLowerCase (take k v) = toLowerCase (take k w) \<or> length v < k \<or> length w < k"
proof (cases "k \<le> length v \<and> k \<le> length w")
  case True
  then have "length (take k v) = length (take k w)" by simp
  then show ?thesis
    using ciStarts_same_length [OF ciStarts_take [OF assms(1)] ciStarts_take [OF assms(2)]] by blast
next
  case False
  then show ?thesis by auto
qed

lemma lower_heads: "h \<in> set urlHeads \<Longrightarrow> toLowerCase h = h"
proof -
  have "toLowerCase ''http://localhost:'' = ''http://localhost:''"
    "toLowerCase ''https://localhost:'' = ''https://localhost:''"
    "toLowerCase ''http://127.0.0.1:'' = ''http://127.0.0.1:''"
    "toLowerCase ''localhost:'' = ''localhost:''"
    by code_simp+
  then show "h \<in> set urlHeads \<Longrightarrow> toLowerCase h = h"
    unfolding urlHeads_def by auto
qed

lemma heads_exclusive:
  assumes "h1 \<in> set urlHeads" and "h2 \<in> set urlHeads" and "ciStarts s h1" and "ciStarts s h2"
  shows "h1 = h2"
proof -
  define key where "key = (\<lambda>h. toLowerCase (take 8 h))"
  have keys: "key ''http://localhost:'' = ''http://l''" "key ''https://localhost:'' = ''https://''"
    "key ''http://127.0.0.1:'' = ''http://1''" "key ''localhost:'' = ''localhos''"
    unfolding key_def by code_simp+
  have "\<not> length h < 8" if "h \<in> set urlHeads" for h
    using that unfolding urlHeads_def by auto
  then have "key h1 = key h2"
    using ciStarts_common [OF assms(3,4), of 8] assms(1,2) unfolding key_def by blast
  then show ?thesis
    using assms(1,2) unfolding urlHeads_def by (auto simp: keys)
qed

section \<open>The matcher on the URL pattern\<close>

lemma conts_lit_Seq:
  "conts (Seq (lit w) r) s = (if ciStarts s w then conts r (drop (length w) s) else [])"
proof (induction w arbitrary: s)
  case Nil
  show ?case by simp
next
  case (Cons c w)
  show ?case
  proof (cases s)
    case Nil
    then show ?thesis by (simp add: ciStarts_Cons)
  next
    case (Cons x xs)
    have "conts (Seq (lit (c # w)) r) (x # xs)
          = (if toUpperChar x = toUpperChar c then conts (Seq (lit w) r) xs else [])"
      by simp
    then show ?thesis
      unfolding Cons using Cons.IH [of xs] by (simp add: ciStarts_Cons upper_eq_iff)
  qed
qed

lemma conts_Opt_Seq:
  "conts (Seq (Opt (Lit c)) r) s
     = (if ciStarts s [c] then conts r (drop 1 s) else []) @ conts r s"
  by (cases s) (simp_all add: ciStarts_Cons upper_eq_iff)

lemma conts_Plus_Digit_Nil [simp]: "conts (Plus Digit) [] = []"
  by simp

lemma conts_Plus_Digit_Cons:
  "conts (Plus Digit) (x # xs) = (if isDigit x then conts (Plus Digit) xs @ [xs] else [])"
  by simp

lemma conts_Plus_Digit_empty: "(conts (Plus Digit) s = []) = (takeWhile isDigit s = [])"
  by (cases s) (simp_all del: conts.simps add: conts_Plus_Digit_Cons)

lemma conts_Plus_Digit_hd:
  "takeWhile isDigit s \<noteq> [] \<Longrightarrow> hd (conts (Plus Digit) s) = dropWhile isDigit s"
proof (induction s)
  case Nil
  then show ?case by simp
next
  case (Cons x xs)
  then have d: "isDigit x" by (simp split: if_splits)
  show ?case
  proof (cases "takeWhile isDigit xs = []")
    case True
    then have "conts (Plus Digit) xs = []" by (simp only: conts_Plus_Digit_empty)
    moreover have "dropWhile isDigit xs = xs"
      using True takeWhile_dropWhile_id [of isDigit xs] by simp
    ultimately show ?thesis using d by (simp del: conts.simps add: conts_Plus_Digit_Cons)
  next
    case False
    then have "conts (Plus Digit) xs \<noteq> []" by (simp only: conts_Plus_Digit_empty not_False_eq_True)
    then show ?thesis
      using d Cons.IH [OF False] by (simp del: conts.simps add: conts_Plus_Digit_Cons)
  qed
qed

lemma conts_urlPattern:
  "conts urlPattern s
     = headMatch ''https://localhost:'' s @ headMatch ''http://localhost:'' s
       @ headMatch ''http://127.0.0.1:'' s @ headMatch ''localhost:'' s"
proof -
  have split1: "''https://localhost:'' = ''http'' @ [CHR ''s''] @ ''://localhost:''"
    and split2: "''http://localhost:'' = ''http'' @ ''://localhost:''"
    by simp_all
  have "conts (Seq (lit ''http'') (Seq (Opt (Lit (CHR ''s''))) (Seq (lit ''://localhost:'') (Plus Digit)))) s
        = headMatch ''https://localhost:'' s @ headMatch ''http://localhost:'' s"
    unfolding conts_lit_Seq conts_Opt_Seq headMatch_def split1 split2 ciStarts_append
    by (simp del: conts.simps add: ciStarts_append)
  then show ?thesis
    unfolding urlPattern_def conts.simps(5) by (simp only: conts_lit_Seq headMatch_def append_assoc)
qed

lemma urlLength_alt:
  "urlLength s = (case filter (headCond s) urlHeads of [] \<Rightarrow> None
                  | h # _ \<Rightarrow> Some (length h + length (takeWhile isDigit (drop (length h) s))))"
  unfolding urlLength_def headCond_def ..

lemma ciStarts_head:
  assumes "h \<in> set urlHeads"
  shows "ciStarts s h = (toLowerCase (take (length h) s) = h)"
proof
  assume "ciStarts s h"
  then show "toLowerCase (take (length h) s) = h"
    using lower_heads [OF assms] by (simp add: ciStarts_def)
next
  assume eq: "toLowerCase (take (length h) s) = h"
  then have "length (take (length h) s) = length h"
    by (metis length_map toLowerCase_def)
  then have "length h \<le> length s" by simp
  then show "ciStarts s h"
    using eq lower_heads [OF assms] by (simp add: ciStarts_def)
qed

lemma headCond_alt:
  "h \<in> set urlHeads \<Longrightarrow>
   headCond s h = (ciStarts s h \<and> takeWhile isDigit (drop (length h) s) \<noteq> [])"
  unfolding headCond_def by (simp only: ciStarts_head)

lemma headCond_headMatch:
  "h \<in> set urlHeads \<Longrightarrow> headCond s h = (headMatch h s \<noteq> [])"
  by (simp only: headCond_alt headMatch_def conts_Plus_Digit_empty [symmetric] if_distrib [of "\<lambda>x. x \<noteq> []"])
     simp

lemma headCond_unique:
  "h1 \<in> set urlHeads \<Longrightarrow> h2 \<in> set urlHeads \<Longrightarrow> headCond s h1 \<Longrightarrow> headCond s h2 \<Longrightarrow> h1 = h2"
  using heads_exclusive [of h1 h2 s] by (simp only: headCond_alt)

lemma filter_eq_self: "distinct xs \<Longrightarrow> h \<in> set xs \<Longrightarrow> filter (\<lambda>x. x = h) xs = [h]"
  by (induction xs) (auto simp: filter_empty_conv)

lemma filter_unique:
  assumes "distinct xs" and "h \<in> set xs" and "P h" and "\<And>x. x \<in> set xs \<Longrightarrow> P x \<Longrightarrow> x = h"
  shows "filter P xs = [h]"
proof -
  have "filter P xs = filter (\<lambda>x. x = h) xs"
  proof (rule filter_cong)
    show "xs = xs" ..
    show "P x = (x = h)" if "x \<in> set xs" for x
      using that assms(3,4) by blast
  qed
  then show ?thesis
    by (simp only: filter_eq_self [OF assms(1,2)])
qed

lemma first_conts_urlPattern:
  "(case conts urlPattern s of [] \<Rightarrow> None | rest # _ \<Rightarrow> Some rest)
     = map_option (\<lambda>n. drop n s) (urlLength s)"
proof (cases "\<exists>h \<in> set urlHeads. headCond s h")
  case False
  then have none: "\<And>h. h \<in> set urlHeads \<Longrightarrow> headMatch h s = []"
    by (simp add: headCond_headMatch)
  have "filter (headCond s) urlHeads = []"
    using False by (simp add: filter_empty_conv)
  moreover have "conts urlPattern s = []"
    unfolding conts_urlPattern by (simp only: none urlHeads_def list.set_intros append_Nil)
  ultimately show ?thesis by (simp add: urlLength_alt)
next
  case True
  then obtain h where h: "h \<in> set urlHeads" "headCond s h" by blast
  let ?t = "drop (length h) s"
  have hm: "headMatch h' s = (if h' = h then headMatch h s else [])" if "h' \<in> set urlHeads" for h'
    using that h headCond_unique [of h' h s] headCond_headMatch [of h' s] by metis
  have mem: "''https://localhost:'' \<in> set urlHeads" "''http://localhost:'' \<in> set urlHeads"
    "''http://127.0.0.1:'' \<in> set urlHeads" "''localhost:'' \<in> set urlHeads"
    by (simp_all add: urlHeads_def)
  have "h = ''https://localhost:'' \<or> h = ''http://localhost:'' \<or> h = ''http://127.0.0.1:''
        \<or> h = ''localhost:''"
    using h(1) by (auto simp: urlHeads_def)
  then have "conts urlPattern s = headMatch h s"
    unfolding conts_urlPattern hm [OF mem(1)] hm [OF mem(2)] hm [OF mem(3)] hm [OF mem(4)]
    by (elim disjE) simp_all
  moreover have "headMatch h s = conts (Plus Digit) ?t"
    using h headCond_alt [of h s] by (simp only: headMatch_def if_True)
  moreover have digits: "takeWhile isDigit ?t \<noteq> []"
    using h headCond_alt [of h s] by blast
  ultimately have "conts urlPattern s \<noteq> []" and "hd (conts urlPattern s) = dropWhile isDigit ?t"
    by (simp_all only: conts_Plus_Digit_empty conts_Plus_Digit_hd not_False_eq_True)
  then have lhs: "(case conts urlPattern s of [] \<Rightarrow> None | rest # _ \<Rightarrow> Some rest)
                  = Some (dropWhile isDigit ?t)"
    by (cases "conts urlPattern s") simp_all
  have "distinct urlHeads" by (simp add: urlHeads_def)
  then have "filter (headCond s) urlHeads = [h]"
  proof (rule filter_unique)
    show "h \<in> set urlHeads" "headCond s h" by (rule h)+
    show "x = h" if "x \<in> set urlHeads" "headCond s x" for x
      by (rule headCond_unique [OF that(1) h(1) that(2) h(2)])
  qed
  then have "urlLength s = Some (length h + length (takeWhile isDigit ?t))"
    by (simp add: urlLength_alt)
  moreover have "drop (length h + length (takeWhile isDigit ?t)) s = dropWhile isDigit ?t"
    by (simp add: dropWhile_eq_drop add.commute)
  ultimately show ?thesis using lhs by simp
qed

lemma urlLength_bounds:
  assumes "urlLength s = Some n"
  shows "0 < n \<and> n \<le> length s"
proof -
  obtain h where h: "h \<in> set urlHeads" "headCond s h"
    and n: "n = length h + length (takeWhile isDigit (drop (length h) s))"
  proof (cases "filter (headCond s) urlHeads")
    case Nil
    then show ?thesis using assms by (simp add: urlLength_alt)
  next
    case (Cons h hs)
    then have "h \<in> set (filter (headCond s) urlHeads)" by simp
    then have "h \<in> set urlHeads" "headCond s h" by simp_all
    moreover have "n = length h + length (takeWhile isDigit (drop (length h) s))"
      using Cons assms by (simp add: urlLength_alt)
    ultimately show ?thesis using that by blast
  qed
  have "ciStarts s h" using h headCond_alt [of h s] by blast
  then have le: "length h \<le> length s" by (simp add: ciStarts_def)
  have "length (takeWhile isDigit (drop (length h) s)) \<le> length (drop (length h) s)"
    by (rule length_takeWhile_le)
  then have "n \<le> length s" using le n by simp
  moreover have "takeWhile isDigit (drop (length h) s) \<noteq> []"
    using h headCond_alt [of h s] by blast
  then have "0 < n" using n by simp
  ultimately show ?thesis by simp
qed

lemma matchAll_scanUrls: "matchAll urlPattern s = scanUrls s"
proof (induction s rule: scanUrls.induct)
  case 1
  have "urlLength [] = None"
    using urlLength_bounds [of "[]"] by (cases "urlLength []") auto
  then have "conts urlPattern [] = []"
    using first_conts_urlPattern [of "[]"] by (cases "conts urlPattern []") simp_all
  then show ?case by simp
next
  case (2 c cs)
  show ?case
  proof (cases "urlLength (c # cs)")
    case None
    then have "conts urlPattern (c # cs) = []"
      using first_conts_urlPattern [of "c # cs"] by (cases "conts urlPattern (c # cs)") simp_all
    then show ?thesis using None 2(1) by simp
  next
    case (Some n)
    then obtain more where c: "conts urlPattern (c # cs) = drop n (c # cs) # more"
      using first_conts_urlPattern [of "c # cs"] by (cases "conts urlPattern (c # cs)") simp_all
    have n: "0 < n" "n \<le> length (c # cs)" using urlLength_bounds [OF Some] by simp_all
    then have d: "drop n (c # cs) = drop (n - 1) cs" by (simp add: drop_Cons')
    have l: "length (drop n (c # cs)) < length (c # cs)"
      and t: "length (c # cs) - length (drop n (c # cs)) = n"
      using n by simp_all
    have "matchAll urlPattern (c # cs) = take n (c # cs) # matchAll urlPattern (drop n (c # cs))"
      by (subst matchAll.simps) (simp only: c list.case l t if_True)
    then show ?thesis using Some 2(2) [OF Some] d by simp
  qed
qed

lemma includes_str_iff: "includes_str s k = (\<exists>p q. s = p @ k @ q)"
proof (induction s)
  case Nil
  show ?case by auto
next
  case (Cons c cs)
  have "startsWith (c # cs) k = (\<exists>q. c # cs = k @ q)"
    unfolding startsWith_def by (metis append_eq_conv_conj append_take_drop_id)
  moreover have "(\<exists>p q. c # cs = p @ k @ q) = ((\<exists>q. c # cs = k @ q) \<or> (\<exists>p q. cs = p @ k @ q))"
  proof
    assume "\<exists>p q. c # cs = p @ k @ q"
    then obtain p q where pq: "c # cs = p @ k @ q" by blast
    show "(\<exists>q. c # cs = k @ q) \<or> (\<exists>p q. cs = p @ k @ q)"
    proof (cases p)
      case Nil
      then show ?thesis using pq by auto
    next
      case (Cons a p')
      then have "cs = p' @ k @ q" using pq by simp
      then show ?thesis by blast
    qed
  next
    assume "(\<exists>q. c # cs = k @ q) \<or> (\<exists>p q. cs = p @ k @ q)"
    then show "\<exists>p q. c # cs = p @ k @ q"
    proof
      assume "\<exists>q. c # cs = k @ q"
      then obtain q where "c # cs = [] @ k @ q" by auto
      then show ?thesis by blast
    next
      assume "\<exists>p q. cs = p @ k @ q"
      then obtain p q where "c # cs = (c # p) @ k @ q" by auto
      then show ?thesis by blast
    qed
  qed
  ultimately show ?case using Cons.IH by simp
qed

lemma isUrl_iff:
  "isUrl u = (\<exists>h \<in> set urlHeads. toLowerCase (take (length h) u) = h \<and> drop (length h) u \<noteq> []
                \<and> (\<forall>c \<in> set (drop (length h) u). isDigit c))"
  by (simp add: isUrl_def list_ex_iff list_all_iff)

lemma urlLength_Some:
  assumes "urlLength s = Some n"
  obtains h where "h \<in> set urlHeads" and "headCond s h"
    and "n = length h + length (takeWhile isDigit (drop (length h) s))"
proof (cases "filter (headCond s) urlHeads")
  case Nil
  then show ?thesis using assms by (simp add: urlLength_alt)
next
  case (Cons h hs)
  then have "h \<in> set (filter (headCond s) urlHeads)" by simp
  then have "h \<in> set urlHeads" "headCond s h" by simp_all
  moreover have "n = length h + length (takeWhile isDigit (drop (length h) s))"
    using Cons assms by (simp add: urlLength_alt)
  ultimately show ?thesis using that by blast
qed

lemma isUrl_take_urlLength:
  assumes "urlLength s = Some n"
  shows "isUrl (take n s)"
proof -
  obtain h where h: "h \<in> set urlHeads" "headCond s h"
    and n: "n = length h + length (takeWhile isDigit (drop (length h) s))"
    using urlLength_Some [OF assms] by blast
  let ?d = "takeWhile isDigit (drop (length h) s)"
  have c: "ciStarts s h" and d: "?d \<noteq> []"
    using h headCond_alt [of h s] by blast+
  have t: "take (length h) (take n s) = take (length h) s"
    using n by (simp add: min_def)
  have "toLowerCase (take (length h) s) = h"
    using c ciStarts_head [OF h(1)] by blast
  then have 1: "toLowerCase (take (length h) (take n s)) = h"
    unfolding t .
  have "drop (length h) (take n s) = take (length ?d) (drop (length h) s)"
    using n by (simp add: drop_take)
  also have "\<dots> = ?d"
    by (simp add: takeWhile_eq_take [symmetric])
  finally have 2: "drop (length h) (take n s) = ?d" .
  have "\<forall>c \<in> set ?d. isDigit c"
    by (blast dest: set_takeWhileD)
  then have 3: "\<forall>c \<in> set (drop (length h) (take n s)). isDigit c"
    unfolding 2 .
  have 4: "drop (length h) (take n s) \<noteq> []"
    unfolding 2 by (rule d)
  show ?thesis
    unfolding isUrl_iff using h(1) 1 3 4 by blast
qed

lemma scanUrls_sound:
  "u \<in> set (scanUrls s) \<Longrightarrow> isUrl u \<and> (\<exists>p q. s = p @ u @ q)"
proof (induction s rule: scanUrls.induct)
  case 1
  then show ?case by simp
next
  case (2 c cs)
  show ?case
  proof (cases "urlLength (c # cs)")
    case None
    then have "u \<in> set (scanUrls cs)" using 2(3) by simp
    then obtain p q where "isUrl u" "cs = p @ u @ q" using 2(1) [OF None] by blast
    then have "isUrl u" "c # cs = (c # p) @ u @ q" by simp_all
    then show ?thesis by blast
  next
    case (Some n)
    have n: "0 < n" "n \<le> length (c # cs)" using urlLength_bounds [OF Some] by simp_all
    then have d: "drop n (c # cs) = drop (n - 1) cs" by (simp add: drop_Cons')
    from 2(3) Some have "u = take n (c # cs) \<or> u \<in> set (scanUrls (drop (n - 1) cs))" by simp
    then show ?thesis
    proof
      assume u: "u = take n (c # cs)"
      then have "c # cs = [] @ u @ drop n (c # cs)" by simp
      moreover have "isUrl u" unfolding u by (rule isUrl_take_urlLength [OF Some])
      ultimately show ?thesis by blast
    next
      assume "u \<in> set (scanUrls (drop (n - 1) cs))"
      then obtain p q where "isUrl u" and "drop (n - 1) cs = p @ u @ q"
        using 2(2) [OF Some] by blast
      then have "c # cs = (take n (c # cs) @ p) @ u @ q"
        using d by (metis append.assoc append_take_drop_id)
      then show ?thesis using \<open>isUrl u\<close> by blast
    qed
  qed
qed

lemma urlLength_at_url:
  assumes "isUrl u"
  shows "urlLength (u @ q) \<noteq> None"
proof -
  obtain h where h: "h \<in> set urlHeads" and low: "toLowerCase (take (length h) u) = h"
    and ne: "drop (length h) u \<noteq> []" and dig: "\<forall>c \<in> set (drop (length h) u). isDigit c"
    using assms unfolding isUrl_iff by blast
  have len: "length h < length u" using ne by simp
  have "isDigit (hd (drop (length h) u))" using ne dig by simp
  then have "takeWhile isDigit (drop (length h) (u @ q)) \<noteq> []"
    using ne len by (cases "drop (length h) u") simp_all
  moreover have t: "take (length h) (u @ q) = take (length h) u"
    using len by simp
  have "toLowerCase (take (length h) (u @ q)) = h"
    unfolding t by (rule low)
  ultimately have "headCond (u @ q) h" unfolding headCond_def by blast
  then have "filter (headCond (u @ q)) urlHeads \<noteq> []"
    using h by (simp only: filter_empty_conv) blast
  then show ?thesis
    by (cases "filter (headCond (u @ q)) urlHeads") (simp_all add: urlLength_alt)
qed

lemma scanUrls_complete:
  assumes "isUrl u"
  shows "scanUrls (p @ u @ q) \<noteq> []"
proof (induction p)
  case Nil
  have "u \<noteq> []" using assms unfolding isUrl_iff by auto
  then obtain c cs where "u @ q = c # cs" by (cases u) auto
  then show ?case using urlLength_at_url [OF assms, of q] by auto
next
  case (Cons a p)
  then show ?case by (cases "urlLength (a # p @ u @ q)") simp_all
qed

lemma extractUrls_firstSeen: "extractUrls line = firstSeen (scanUrls line)"
  by (simp add: extractUrls_def newSet_firstSeen matchAll_scanUrls)

section \<open>Trimming a line\<close>



























section \<open>Handling events\<close>

lemma length_infos_handleEvent [simp]:
  "length (infos (handleEvent verbose route st e)) = length (infos st)"
  by (cases e) simp_all

lemma length_promises_handleEvent [simp]:
  "length (promises (handleEvent verbose route st e)) = length (promises st)"
  by (cases e) simp_all

lemma length_infos_foldl [simp]:
  "length (infos (foldl (handleEvent verbose route) st evs)) = length (infos st)"
  by (induction evs arbitrary: st) simp_all

lemma length_promises_foldl [simp]:
  "length (promises (foldl (handleEvent verbose route) st evs)) = length (promises st)"
  by (induction evs arbitrary: st) simp_all

lemma worktree_handleEvent [simp]:
  "map worktree (infos (handleEvent verbose route st e)) = map worktree (infos st)"
  by (cases e) (simp_all add: map_update recordChunk_def list_update_same_conv)

lemma urls_handleEvent:
  "i < length (infos st) \<Longrightarrow>
   urls (infos (handleEvent verbose route st e) ! i)
     = urls (infos st ! i) @ concat (map extractUrls (chunksOf i [e]))"
  by (cases e) (simp_all add: recordChunk_def nth_list_update)

lemma chunksOf_Cons: "chunksOf i (e # es) = chunksOf i [e] @ chunksOf i es"
  by (cases e) simp_all

lemma urls_foldl:
  "i < length (infos st) \<Longrightarrow>
   urls (infos (foldl (handleEvent verbose route) st evs) ! i)
     = urls (infos st ! i) @ concat (map extractUrls (chunksOf i evs))"
proof (induction evs arbitrary: st)
  case Nil
  show ?case by simp
next
  case (Cons e es)
  have "urls (infos (foldl (handleEvent verbose route) (handleEvent verbose route st e) es) ! i)
        = urls (infos (handleEvent verbose route st e) ! i) @ concat (map extractUrls (chunksOf i es))"
    using Cons.prems by (intro Cons.IH) simp
  then show ?case
    using Cons.prems by (simp add: urls_handleEvent chunksOf_Cons [of i e es])
qed

lemma infos_initialState [simp]:
  "i < length sel \<Longrightarrow> infos (initialState command sel) ! i = \<lparr>worktree = sel ! i, urls = [], output = []\<rparr>"
  by (simp add: initialState_def)

lemma length_infos_initialState [simp]: "length (infos (initialState command sel)) = length sel"
  by (simp add: initialState_def)

lemma length_promises_initialState [simp]: "length (promises (initialState command sel)) = length sel"
  by (simp add: initialState_def)

lemma distinct_extractUrls: "distinct (extractUrls text)"
  by (simp add: extractUrls_def newSet_firstSeen distinct_firstSeen)

lemma urlOf_summaryBlock:
  "concat (map urlOf (summaryBlock route index info result)) = firstSeen (urls info)"
proof -
  have "concat (map urlOf (concat (map (\<lambda>url. UrlLine url # (if truthy route then [UrlRouteLine (url @ normalizedRoute (the route))] else [])) xs))) = xs" for xs
    by (induction xs) auto
  moreover have "urls info = [] \<Longrightarrow> firstSeen (urls info) = []" by simp
  ultimately show ?thesis
    by (auto simp: summaryBlock_def newSet_firstSeen split: promise.splits)
qed

lemma serviceOf_servicesSection:
  "concat (map serviceOf (servicesSection route processInfos)) = firstSeen (concat (map urls processInfos))"
proof -
  have "concat (map serviceOf (concat (map (\<lambda>url. ServiceLine url # (if truthy route then [ServiceRouteLine (url @ normalizedRoute (the route))] else [])) xs))) = xs" for xs
    by (induction xs) auto
  then show ?thesis
    by (auto simp: servicesSection_def allUrls_def Let_def newSet_firstSeen)
qed

section \<open>Waiting for all children\<close>

declare awaitAllSettled.simps [simp del]

lemma awaitAllSettled_Nil:
  "awaitAllSettled verbose route st [] = (if Pending \<notin> set (promises st) then Some st else None)"
  by (subst awaitAllSettled.simps) simp

lemma awaitAllSettled_Cons:
  "awaitAllSettled verbose route st (e # es) =
     (if Pending \<notin> set (promises st) then Some st
      else awaitAllSettled verbose route (handleEvent verbose route st e) es)"
  by (subst awaitAllSettled.simps) simp

lemma awaitAllSettled_handled:
  "awaitAllSettled verbose route st evs = Some st' \<Longrightarrow>
   \<exists>es1 es2. evs = es1 @ es2 \<and> st' = foldl (handleEvent verbose route) st es1"
proof (induction evs arbitrary: st)
  case Nil
  then show ?case by (simp add: awaitAllSettled_Nil split: if_splits)
next
  case (Cons e es)
  show ?case
  proof (cases "Pending \<notin> set (promises st)")
    case True
    then have "st' = st" using Cons.prems by (simp add: awaitAllSettled_Cons)
    then have "e # es = [] @ (e # es) \<and> st' = foldl (handleEvent verbose route) st []" by simp
    then show ?thesis by blast
  next
    case False
    then have "awaitAllSettled verbose route (handleEvent verbose route st e) es = Some st'"
      using Cons.prems by (simp add: awaitAllSettled_Cons)
    then obtain es1 es2 where "es = es1 @ es2"
      and "st' = foldl (handleEvent verbose route) (handleEvent verbose route st e) es1"
      using Cons.IH by blast
    then have "e # es = (e # es1) @ es2 \<and> st' = foldl (handleEvent verbose route) st (e # es1)"
      by simp
    then show ?thesis by blast
  qed
qed

lemma closeOutcome_not_Pending [simp]: "closeOutcome code \<noteq> Pending"
  by (simp add: closeOutcome_def)

lemma promises_handleEvent:
  "i < length (promises st) \<Longrightarrow>
   promises (handleEvent verbose route st e) ! i
     = (if promises st ! i = Pending then outcomeOf i [e] else promises st ! i)"
  by (cases e) (auto simp: settle_def nth_list_update split: promise.splits)

lemma outcomeOf_Cons:
  "outcomeOf i (e # es) = (if outcomeOf i [e] = Pending then outcomeOf i es else outcomeOf i [e])"
  by (cases e) simp_all

lemma promises_awaitAllSettled:
  "awaitAllSettled verbose route st evs = Some st' \<Longrightarrow> i < length (promises st) \<Longrightarrow>
   promises st' ! i = (if promises st ! i = Pending then outcomeOf i evs else promises st ! i)"
proof (induction evs arbitrary: st)
  case Nil
  then show ?case by (auto simp: awaitAllSettled_Nil split: if_splits)
next
  case (Cons e es)
  show ?case
  proof (cases "Pending \<notin> set (promises st)")
    case True
    then have "st' = st" using Cons.prems by (simp add: awaitAllSettled_Cons)
    moreover have "promises st ! i \<noteq> Pending" using True Cons.prems(2) by (metis nth_mem)
    ultimately show ?thesis by simp
  next
    case False
    let ?st1 = "handleEvent verbose route st e"
    have run: "awaitAllSettled verbose route ?st1 es = Some st'"
      using False Cons.prems by (simp add: awaitAllSettled_Cons)
    have "promises st' ! i = (if promises ?st1 ! i = Pending then outcomeOf i es else promises ?st1 ! i)"
      using Cons.IH [OF run] Cons.prems(2) by simp
    then show ?thesis
      using Cons.prems(2) by (simp add: promises_handleEvent outcomeOf_Cons [of i e es])
  qed
qed

lemma awaitAllSettled_None:
  "(awaitAllSettled verbose route st evs = None)
     = (\<exists>i<length (promises st). promises st ! i = Pending \<and> outcomeOf i evs = Pending)"
proof (induction evs arbitrary: st)
  case Nil
  show ?case by (auto simp: awaitAllSettled_Nil in_set_conv_nth)
next
  case (Cons e es)
  show ?case
  proof (cases "Pending \<notin> set (promises st)")
    case True
    then have "\<not> (\<exists>i<length (promises st). promises st ! i = Pending)" by (metis nth_mem)
    then show ?thesis using True by (auto simp: awaitAllSettled_Cons)
  next
    case False
    let ?st1 = "handleEvent verbose route st e"
    have "(awaitAllSettled verbose route st (e # es) = None)
          = (\<exists>i<length (promises ?st1). promises ?st1 ! i = Pending \<and> outcomeOf i es = Pending)"
      using False Cons.IH [of ?st1] by (simp add: awaitAllSettled_Cons)
    also have "\<dots> = (\<exists>i<length (promises st). promises st ! i = Pending \<and> outcomeOf i (e # es) = Pending)"
    proof -
      have "(promises ?st1 ! i = Pending \<and> outcomeOf i es = Pending)
            = (promises st ! i = Pending \<and> outcomeOf i (e # es) = Pending)"
        if "i < length (promises st)" for i
        using that by (auto simp: promises_handleEvent outcomeOf_Cons [of i e es])
      then show ?thesis by auto
    qed
    finally show ?thesis .
  qed
qed


lemma not_summary_printLine: "list_all (\<lambda>l. \<not> isSummaryLine l) (printLine verbose route index wt line)"
  by (auto simp: printLine_def Let_def list_all_iff)

lemma not_summary_printChunk: "list_all (\<lambda>l. \<not> isSummaryLine l) (printChunk verbose route index wt chunk)"
  using not_summary_printLine by (auto simp add: printChunk_def list_all_iff)

lemma not_summary_handleEvent:
  "list_all (\<lambda>l. \<not> isSummaryLine l) (console st) \<Longrightarrow>
   list_all (\<lambda>l. \<not> isSummaryLine l) (console (handleEvent verbose route st e))"
  using not_summary_printChunk by (cases e) simp_all

lemma not_summary_foldl:
  "list_all (\<lambda>l. \<not> isSummaryLine l) (console st) \<Longrightarrow>
   list_all (\<lambda>l. \<not> isSummaryLine l) (console (foldl (handleEvent verbose route) st evs))"
  by (induction evs arbitrary: st) (simp_all add: not_summary_handleEvent)

lemma not_summary_initialState:
  "list_all (\<lambda>l. \<not> isSummaryLine l) (console (initialState command sel))"
  by (simp add: initialState_def)

lemma not_summary_readings:
  "\<not> isSummaryLine l \<Longrightarrow>
   statusOf l = [] \<and> errorOf l = [] \<and> urlOf l = [] \<and> serviceOf l = [] \<and> urlRouteOf l = [] \<and> serviceRouteOf l = []"
  by (cases l) simp_all

lemma readings_live:
  assumes "list_all (\<lambda>l. \<not> isSummaryLine l) ls"
  shows "concat (map statusOf ls) = []" and "concat (map errorOf ls) = []"
    and "concat (map urlOf ls) = []" and "concat (map serviceOf ls) = []"
  using assms by (auto simp: list_all_iff not_summary_readings)

section \<open>The summary\<close>

lemma runCommand_Some:
  assumes "runCommand (Inr worktrees) useAll selected command route verbose evs = Some res"
    and "worktrees \<noteq> []" and "sel = (if useAll then worktrees else selected)" and "sel \<noteq> []"
  obtains st where "awaitAllSettled verbose route (initialState command sel) evs = Some st"
    and "res = \<lparr>printed = console st @ printSummary route st,
                spawned = map (\<lambda>wt. (path wt, command)) sel, ending = Returns\<rparr>"
  using assms by (auto simp: runCommand_def Let_def split: option.splits if_splits)

lemma joined_state:
  assumes "awaitAllSettled verbose route (initialState command sel) evs = Some st"
  shows "length (infos st) = length sel" and "length (promises st) = length sel"
    and "map worktree (infos st) = sel"
    and "list_all (\<lambda>l. \<not> isSummaryLine l) (console st)"
    and "\<And>i. i < length sel \<Longrightarrow> promises st ! i = outcomeOf i evs"
proof -
  obtain es1 es2 where st: "st = foldl (handleEvent verbose route) (initialState command sel) es1"
    using awaitAllSettled_handled [OF assms] by blast
  show "length (infos st) = length sel" and "length (promises st) = length sel"
    by (simp_all add: st)
  have "map worktree (infos (foldl (handleEvent verbose route) s es)) = map worktree (infos s)" for s es
    by (induction es arbitrary: s) simp_all
  then show "map worktree (infos st) = sel"
    by (simp add: st initialState_def comp_def)
  show "list_all (\<lambda>l. \<not> isSummaryLine l) (console st)"
    unfolding st by (rule not_summary_foldl) (rule not_summary_initialState)
  show "promises st ! i = outcomeOf i evs" if "i < length sel" for i
    using promises_awaitAllSettled [OF assms, of i] that by (simp add: initialState_def)
qed

lemma statusOf_summaryBlock:
  "concat (map statusOf (summaryBlock route index info result))
     = [(result = Fulfilled, branch (worktree info), path (worktree info))]"
proof -
  have "concat (map statusOf (concat (map (\<lambda>url. UrlLine url # (if truthy route then [UrlRouteLine (url @ normalizedRoute (the route))] else [])) xs))) = []" for xs
    by (induction xs) auto
  then show ?thesis
    by (auto simp: summaryBlock_def split: promise.splits)
qed


lemma serviceOf_summaryBlock:
  "concat (map serviceOf (summaryBlock route index info result)) = []"
proof -
  have "concat (map serviceOf (concat (map (\<lambda>url. UrlLine url # (if truthy route then [UrlRouteLine (url @ normalizedRoute (the route))] else [])) xs))) = []" for xs
    by (induction xs) auto
  then show ?thesis
    by (auto simp: summaryBlock_def split: promise.splits)
qed

lemma readings_servicesSection:
  "concat (map statusOf (servicesSection route processInfos)) = []"
  "concat (map errorOf (servicesSection route processInfos)) = []"
  "concat (map urlOf (servicesSection route processInfos)) = []"
proof -
  let ?f = "\<lambda>url. ServiceLine url # (if truthy route then [ServiceRouteLine (url @ normalizedRoute (the route))] else [])"
  have "concat (map statusOf (concat (map ?f xs))) = []"
       "concat (map errorOf (concat (map ?f xs))) = []"
       "concat (map urlOf (concat (map ?f xs))) = []" for xs
    by (induction xs) auto
  then show "concat (map statusOf (servicesSection route processInfos)) = []"
    "concat (map errorOf (servicesSection route processInfos)) = []"
    "concat (map urlOf (servicesSection route processInfos)) = []"
    by (auto simp: servicesSection_def Let_def)
qed

lemma concat_map_concat_map:
  "concat (map f (concat (map g xs))) = concat (map (\<lambda>x. concat (map f (g x))) xs)"
  by (induction xs) simp_all



lemma urlOf_printSummary:
  "concat (map urlOf (printSummary route st))
     = concat (map (\<lambda>i. firstSeen (urls (infos st ! i))) [0 ..< length (infos st)])"
  by (simp add: printSummary_def concat_map_concat_map urlOf_summaryBlock readings_servicesSection)

lemma serviceOf_printSummary:
  "concat (map serviceOf (printSummary route st)) = firstSeen (concat (map urls (infos st)))"
  by (simp add: printSummary_def concat_map_concat_map serviceOf_summaryBlock serviceOf_servicesSection)



lemma runCommand_None:
  assumes "worktrees \<noteq> []" and "sel = (if useAll then worktrees else selected)" and "sel \<noteq> []"
  shows "(runCommand (Inr worktrees) useAll selected command route verbose evs = None)
           = (\<exists>i<length sel. outcomeOf i evs = Pending)"
proof -
  have "(runCommand (Inr worktrees) useAll selected command route verbose evs = None)
        = (awaitAllSettled verbose route (initialState command sel) evs = None)"
    using assms by (auto simp: runCommand_def Let_def split: option.splits)
  then show ?thesis
    by (auto simp: awaitAllSettled_None initialState_def)
qed

section \<open>The lines of a chunk\<close>




section \<open>The events handled before the wait ends\<close>

lemma settle_not_Pending: "outcome \<noteq> Pending \<Longrightarrow> settle outcome p \<noteq> Pending"
  by (cases p) (simp_all add: settle_def)

lemma filter_update_settled:
  assumes "i < length ps" and "q \<noteq> Pending"
  shows "filter (\<lambda>j. ps[i := q] ! j = Pending) [0 ..< length ps]
           = removeAll i (filter (\<lambda>j. ps ! j = Pending) [0 ..< length ps])"
proof -
  have "filter (\<lambda>j. ps[i := q] ! j = Pending) [0 ..< length ps]
        = filter (\<lambda>j. i \<noteq> j \<and> ps ! j = Pending) [0 ..< length ps]"
    using assms by (intro filter_cong) (auto simp: nth_list_update)
  moreover have "removeAll i (filter P xs) = filter (\<lambda>j. i \<noteq> j \<and> P j) xs" for P and xs :: "nat list"
    by (induction xs) auto
  ultimately show ?thesis
    by (simp only:)
qed

lemma pendingOf_handleEvent:
  "pendingOf (handleEvent verbose route st e) = settles e (pendingOf st)"
proof (cases e)
  case (Data i chunk)
  then show ?thesis by (simp add: pendingOf_def)
next
  case (Close i code)
  show ?thesis
  proof (cases "i < length (promises st)")
    case True
    then show ?thesis
      unfolding Close
      by (simp add: pendingOf_def filter_update_settled settle_not_Pending)
  next
    case False
    then have "i \<notin> set (pendingOf st)" by (simp add: pendingOf_def)
    then show ?thesis unfolding Close using False by simp
  qed
next
  case (Error i msg)
  show ?thesis
  proof (cases "i < length (promises st)")
    case True
    then show ?thesis
      unfolding Error
      by (simp add: pendingOf_def filter_update_settled settle_not_Pending)
  next
    case False
    then have "i \<notin> set (pendingOf st)" by (simp add: pendingOf_def)
    then show ?thesis unfolding Error using False by simp
  qed
qed

lemma pendingOf_Nil: "(pendingOf st = []) = (Pending \<notin> set (promises st))"
  by (auto simp: pendingOf_def filter_empty_conv in_set_conv_nth)

lemma awaitAllSettled_handledBy:
  "awaitAllSettled verbose route st evs = Some st' \<Longrightarrow>
   st' = foldl (handleEvent verbose route) st (handledBy (pendingOf st) evs)"
proof (induction evs arbitrary: st)
  case Nil
  then show ?case by (simp add: awaitAllSettled_Nil split: if_splits)
next
  case (Cons e es)
  show ?case
  proof (cases "Pending \<notin> set (promises st)")
    case True
    then have "st' = st" using Cons.prems by (simp add: awaitAllSettled_Cons)
    moreover have "pendingOf st = []" using True pendingOf_Nil by blast
    ultimately show ?thesis by simp
  next
    case False
    then have "awaitAllSettled verbose route (handleEvent verbose route st e) es = Some st'"
      using Cons.prems by (simp add: awaitAllSettled_Cons)
    then have "st' = foldl (handleEvent verbose route) (handleEvent verbose route st e)
                       (handledBy (pendingOf (handleEvent verbose route st e)) es)"
      by (rule Cons.IH)
    then have "st' = foldl (handleEvent verbose route) (handleEvent verbose route st e)
                       (handledBy (settles e (pendingOf st)) es)"
      by (simp only: pendingOf_handleEvent)
    moreover have "pendingOf st \<noteq> []" using False pendingOf_Nil by blast
    ultimately show ?thesis by simp
  qed
qed

lemma pendingOf_initialState: "pendingOf (initialState command sel) = [0 ..< length sel]"
  by (simp add: pendingOf_def initialState_def filter_id_conv)

lemma joined_handled:
  assumes "awaitAllSettled verbose route (initialState command sel) evs = Some st"
  shows "st = foldl (handleEvent verbose route) (initialState command sel) (handled (length sel) evs)"
  using awaitAllSettled_handledBy [OF assms] by (simp add: pendingOf_initialState handled_def)

section \<open>The tagged lines of a run\<close>












section \<open>The blocks of the summary\<close>

lemma blockUrls_skip: "statusOf l = [] \<Longrightarrow> blockUrls (l # ls) = blockUrls ls"
  by (cases l) simp_all

lemma blockUrls_skip_append:
  "\<forall>l \<in> set xs. statusOf l = [] \<Longrightarrow> blockUrls (xs @ ys) = blockUrls ys"
  by (induction xs) (simp_all add: blockUrls_skip)

lemma summaryBlock_shape:
  "\<exists>rest. summaryBlock route index info result
            = StatusLine (result = Fulfilled) (getWorktreeColor index)
                (branch (worktree info)) (path (worktree info)) # rest
          \<and> (\<forall>l \<in> set rest. statusOf l = [])
          \<and> concat (map urlOf rest) = firstSeen (urls info)"
proof -
  let ?rest = "tl (summaryBlock route index info result)"
  have 1: "summaryBlock route index info result
           = StatusLine (result = Fulfilled) (getWorktreeColor index)
               (branch (worktree info)) (path (worktree info)) # ?rest"
    by (simp add: summaryBlock_def)
  have "concat (map statusOf (summaryBlock route index info result))
        = [(result = Fulfilled, branch (worktree info), path (worktree info))]"
    by (rule statusOf_summaryBlock)
  then have "concat (map statusOf ?rest) = []"
    by (subst (asm) 1) simp
  then have 2: "\<forall>l \<in> set ?rest. statusOf l = []"
    by simp
  have "concat (map urlOf (summaryBlock route index info result)) = firstSeen (urls info)"
    by (rule urlOf_summaryBlock)
  then have 3: "concat (map urlOf ?rest) = firstSeen (urls info)"
    by (subst (asm) 1) simp
  show ?thesis using 1 2 3 by blast
qed

lemma blockUrls_blocks:
  assumes "\<forall>l \<in> set tail. statusOf l = []" and "concat (map urlOf tail) = []"
  shows "blockUrls (concat (map (\<lambda>i. summaryBlock route i (f i) (g i)) is) @ tail)
           = map (\<lambda>i. ((branch (worktree (f i)), path (worktree (f i))), firstSeen (urls (f i)))) is
       \<and> concat (map urlOf (takeWhile (\<lambda>l. statusOf l = [])
                    (concat (map (\<lambda>i. summaryBlock route i (f i) (g i)) is) @ tail))) = []"
proof (induction "is")
  case Nil
  have "blockUrls (tail @ []) = blockUrls []"
    by (rule blockUrls_skip_append [OF assms(1)])
  moreover have "takeWhile (\<lambda>l. statusOf l = []) tail = tail"
    using assms(1) by (simp add: takeWhile_eq_all_conv)
  ultimately have "blockUrls tail = []"
    and "concat (map urlOf (takeWhile (\<lambda>l. statusOf l = []) tail)) = []"
    using assms(2) by (simp_all only: append_Nil2 blockUrls.simps(1))
  then show ?case by simp
next
  case (Cons i "is")
  let ?T = "concat (map (\<lambda>i. summaryBlock route i (f i) (g i)) is) @ tail"
  obtain rest where sb: "summaryBlock route i (f i) (g i)
        = StatusLine (g i = Fulfilled) (getWorktreeColor i)
            (branch (worktree (f i))) (path (worktree (f i))) # rest"
    and ns: "\<forall>l \<in> set rest. statusOf l = []"
    and us: "concat (map urlOf rest) = firstSeen (urls (f i))"
    using summaryBlock_shape [of route i "f i" "g i"] by blast
  have tw: "takeWhile (\<lambda>l. statusOf l = []) (rest @ ?T) = rest @ takeWhile (\<lambda>l. statusOf l = []) ?T"
    using ns by (simp add: takeWhile_append2)
  have bu: "blockUrls (rest @ ?T) = blockUrls ?T"
    by (rule blockUrls_skip_append [OF ns])
  show ?case
    using Cons.IH by (simp add: sb tw bu us)
qed

lemma blocks_in_run:
  assumes "runCommand (Inr worktrees) useAll selected command route verbose evs = Some res"
    and "worktrees \<noteq> []" and "sel = (if useAll then worktrees else selected)" and "sel \<noteq> []"
  shows "blockUrls (printed res)
           = map (\<lambda>i. ((branch (sel ! i), path (sel ! i)),
                        firstSeen (concat (map extractUrls (chunksOf i (handled (length sel) evs))))))
                 [0 ..< length sel]"
proof -
  obtain st where join: "awaitAllSettled verbose route (initialState command sel) evs = Some st"
    and res: "res = \<lparr>printed = console st @ printSummary route st,
                     spawned = map (\<lambda>wt. (path wt, command)) sel, ending = Returns\<rparr>"
    using runCommand_Some [OF assms] by blast
  note js = joined_state [OF join]
  have live: "\<forall>l \<in> set (console st). statusOf l = []"
    using js(4) by (auto simp: list_all_iff not_summary_readings)
  have tail: "\<forall>l \<in> set (servicesSection route (infos st)). statusOf l = []"
    "concat (map urlOf (servicesSection route (infos st))) = []"
    using readings_servicesSection(1) [of route "infos st"] readings_servicesSection(3) by simp_all
  have "blockUrls (printed res) = blockUrls (printSummary route st)"
    unfolding res by (simp add: blockUrls_skip_append [OF live])
  also have "\<dots> = blockUrls (concat (map (\<lambda>i. summaryBlock route i (infos st ! i) (promises st ! i))
                                          [0 ..< length (infos st)]) @ servicesSection route (infos st))"
    by (simp add: printSummary_def)
  also have "\<dots> = map (\<lambda>i. ((branch (worktree (infos st ! i)), path (worktree (infos st ! i))),
                              firstSeen (urls (infos st ! i)))) [0 ..< length (infos st)]"
    using blockUrls_blocks [OF tail] by blast
  also have "\<dots> = map (\<lambda>i. ((branch (sel ! i), path (sel ! i)),
                firstSeen (concat (map extractUrls (chunksOf i (handled (length sel) evs))))))
                [0 ..< length sel]"
  proof (rule map_cong)
    show "[0 ..< length (infos st)] = [0 ..< length sel]" by (simp add: js(1))
    fix i assume "i \<in> set [0 ..< length sel]"
    then have i: "i < length sel" by simp
    have wt: "worktree (infos st ! i) = sel ! i"
      using i js(1,3) by (metis nth_map)
    have "urls (infos st ! i) = concat (map extractUrls (chunksOf i (handled (length sel) evs)))"
      unfolding joined_handled [OF join] using i by (simp add: urls_foldl)
    then show "((branch (worktree (infos st ! i)), path (worktree (infos st ! i))),
                firstSeen (urls (infos st ! i)))
             = ((branch (sel ! i), path (sel ! i)),
                firstSeen (concat (map extractUrls (chunksOf i (handled (length sel) evs)))))"
      by (simp add: wt)
  qed
  finally show ?thesis .
qed

section \<open>Properties of the line classifier\<close>

text \<open>
  C1.  \<open>extractUrls\<close>, the backtracking matcher run over the line followed by the
  \<open>Set\<close>, returns the URLs of the line (each of the four shapes, case ignored, with all
  the digits that follow), from left to right, each once at the place of its first
  occurrence, compared as strings.  Every string returned is a URL and a substring of
  the line, no string is returned twice, and nothing is returned exactly when no
  substring of the line is a URL.
\<close>

theorem extractUrls_spec:
  "extractUrls line = firstSeen (scanUrls line)
   \<and> distinct (extractUrls line)
   \<and> (\<forall>u \<in> set (extractUrls line). isUrl u \<and> includes_str line u)
   \<and> ((extractUrls line = []) = (\<not> (\<exists>u. isUrl u \<and> includes_str line u)))"
proof (intro conjI ballI)
  show "extractUrls line = firstSeen (scanUrls line)" by (rule extractUrls_firstSeen)
  show "distinct (extractUrls line)" by (rule distinct_extractUrls)
  show "isUrl u" "includes_str line u" if "u \<in> set (extractUrls line)" for u
    using that scanUrls_sound [of u line]
    by (simp_all add: extractUrls_firstSeen set_firstSeen includes_str_iff)
  have "(extractUrls line = []) = (scanUrls line = [])"
    by (metis extractUrls_firstSeen set_firstSeen set_empty)
  also have "\<dots> = (\<not> (\<exists>u. isUrl u \<and> includes_str line u))"
  proof
    assume "scanUrls line = []"
    then show "\<not> (\<exists>u. isUrl u \<and> includes_str line u)"
      using scanUrls_complete unfolding includes_str_iff by metis
  next
    assume no: "\<not> (\<exists>u. isUrl u \<and> includes_str line u)"
    show "scanUrls line = []"
    proof (rule ccontr)
      assume "scanUrls line \<noteq> []"
      then obtain u where "u \<in> set (scanUrls line)" by (cases "scanUrls line") auto
      then show False using scanUrls_sound [of u line] no unfolding includes_str_iff by blast
    qed
  qed
  finally show "(extractUrls line = []) = (\<not> (\<exists>u. isUrl u \<and> includes_str line u))" .
qed

theorem extractUrls_spec_witness:
  "extractUrls ''  Local:   HTTPS://LocalHost:5173/ (also localhost:80, https://localhost:5173)''
     = [''HTTPS://LocalHost:5173'', ''localhost:80'', ''https://localhost:5173'']
   \<and> isUrl ''HTTPS://LocalHost:5173''
   \<and> includes_str ''  Local:   HTTPS://LocalHost:5173/ (also localhost:80, https://localhost:5173)''
         ''HTTPS://LocalHost:5173''"
proof -
  let ?line = "''  Local:   HTTPS://LocalHost:5173/ (also localhost:80, https://localhost:5173)''"
  have e: "extractUrls ?line = [''HTTPS://LocalHost:5173'', ''localhost:80'', ''https://localhost:5173'']"
    by code_simp
  then have "''HTTPS://LocalHost:5173'' \<in> set (extractUrls ?line)" by simp
  then show ?thesis using extractUrls_spec [of ?line] e by blast
qed

text \<open>
  C2 (as the program behaves).  On the line
  \<^verbatim>\<open>Server on http://localhost:3000 and LOCALHOST:3000\<close> the pattern matches twice,
  and the two matches are different strings, so \<open>extractUrls\<close> returns both, in the
  order of the line.
\<close>

theorem extractUrls_example_both:
  "extractUrls ''Server on http://localhost:3000 and LOCALHOST:3000''
     = [''http://localhost:3000'', ''LOCALHOST:3000'']"
  by code_simp

text \<open>
  The result on that line is not the single URL \<^verbatim>\<open>http://localhost:3000\<close>: no case
  folding or prefix stripping happens before the matches are compared.
\<close>

theorem extractUrls_example_not_single:
  "extractUrls ''Server on http://localhost:3000 and LOCALHOST:3000''
     \<noteq> [''http://localhost:3000'']"
  by code_simp



section \<open>Properties of the output of one worktree\<close>

text \<open>
  C3 (as the program behaves).  After any events, the URLs kept for a worktree are the
  results of \<open>extractUrls\<close> on the chunks of its child, one after the other in the order
  of arrival.  No chunk contributes a URL twice, and the \<open>Set\<close> built from the kept URLs
  for the summary has no URL twice; the kept array itself repeats a URL that several
  chunks contain.
\<close>

theorem urls_accumulate:
  assumes "i < length selectedWorktrees"
  shows "urls (infos (foldl (handleEvent verbose route) (initialState command selectedWorktrees) evs) ! i)
           = concat (map extractUrls (chunksOf i evs))
         \<and> list_all (\<lambda>chunk. distinct (extractUrls chunk)) (chunksOf i evs)
         \<and> distinct (newSet (urls (infos (foldl (handleEvent verbose route)
                                (initialState command selectedWorktrees) evs) ! i)))"
  using assms
  by (simp add: urls_foldl distinct_extractUrls newSet_firstSeen distinct_firstSeen list_all_iff)

theorem urls_accumulate_witness:
  "0 < length [\<lparr>path = ''/repo'', branch = ''main'', commit = ''0a1b2c3''\<rparr>]
   \<and> urls (infos (foldl (handleEvent False None)
          (initialState ''pnpm dev'' [\<lparr>path = ''/repo'', branch = ''main'', commit = ''0a1b2c3''\<rparr>])
          [Data 0 ''ready on localhost:3000'', Data 0 ''still on localhost:3000'']) ! 0)
     = [''localhost:3000'', ''localhost:3000'']
   \<and> newSet (urls (infos (foldl (handleEvent False None)
          (initialState ''pnpm dev'' [\<lparr>path = ''/repo'', branch = ''main'', commit = ''0a1b2c3''\<rparr>])
          [Data 0 ''ready on localhost:3000'', Data 0 ''still on localhost:3000'']) ! 0))
     = [''localhost:3000'']"
proof -
  let ?wt = "\<lparr>path = ''/repo'', branch = ''main'', commit = ''0a1b2c3''\<rparr>"
  let ?evs = "[Data 0 ''ready on localhost:3000'', Data 0 ''still on localhost:3000'']"
  have x: "extractUrls ''ready on localhost:3000'' = [''localhost:3000'']"
    "extractUrls ''still on localhost:3000'' = [''localhost:3000'']"
    by code_simp+
  have l: "0 < length [?wt]" by simp
  have "urls (infos (foldl (handleEvent False None) (initialState ''pnpm dev'' [?wt]) ?evs) ! 0)
          = concat (map extractUrls (chunksOf 0 ?evs))"
    using urls_accumulate [OF l, of False None "''pnpm dev''" ?evs] by blast
  also have "\<dots> = [''localhost:3000'', ''localhost:3000'']"
    by (simp add: x)
  finally have u: "urls (infos (foldl (handleEvent False None) (initialState ''pnpm dev'' [?wt]) ?evs) ! 0)
          = [''localhost:3000'', ''localhost:3000'']" .
  have "newSet [''localhost:3000'', ''localhost:3000''] = [''localhost:3000'']"
    by (simp add: newSet_def setAdd_def)
  then show ?thesis unfolding u using l by simp
qed

text \<open>Two chunks of one child with the same URL: the kept array holds it twice.\<close>

theorem urls_duplicates_counterexample:
  "\<not> distinct (urls (infos (foldl (handleEvent False None)
        (initialState ''pnpm dev'' [\<lparr>path = ''/repo'', branch = ''main'', commit = ''0a1b2c3''\<rparr>])
        [Data 0 ''ready on localhost:3000'', Data 0 ''still on localhost:3000'']) ! 0))"
proof -
  let ?wt = "\<lparr>path = ''/repo'', branch = ''main'', commit = ''0a1b2c3''\<rparr>"
  let ?evs = "[Data 0 ''ready on localhost:3000'', Data 0 ''still on localhost:3000'']"
  have x: "extractUrls ''ready on localhost:3000'' = [''localhost:3000'']"
    "extractUrls ''still on localhost:3000'' = [''localhost:3000'']"
    by code_simp+
  have "urls (infos (foldl (handleEvent False None) (initialState ''pnpm dev'' [?wt]) ?evs) ! 0)
          = urls (infos (initialState ''pnpm dev'' [?wt]) ! 0) @ concat (map extractUrls (chunksOf 0 ?evs))"
    by (rule urls_foldl) simp
  also have "\<dots> = [''localhost:3000'', ''localhost:3000'']"
    by (simp add: x)
  finally have u: "urls (infos (foldl (handleEvent False None) (initialState ''pnpm dev'' [?wt]) ?evs) ! 0)
          = [''localhost:3000'', ''localhost:3000'']" .
  show ?thesis unfolding u by simp
qed




text \<open>
  C10.  When \<open>runCommand\<close> returns, the summary it has printed has one block per
  selected worktree, in the order of the selection, and the URLs printed in the block of
  a worktree are the URLs that \<open>extractUrls\<close> found in the chunks of its child, in the
  order of arrival, each once at the place of its first occurrence: a URL found in
  several chunks is printed once in the block.
\<close>

theorem summary_block_urls:
  assumes "runCommand (Inr worktrees) useAll selected command route verbose evs = Some res"
    and "worktrees \<noteq> []" and "sel = (if useAll then worktrees else selected)" and "sel \<noteq> []"
  shows "blockUrls (printed res)
           = map (\<lambda>i. ((branch (sel ! i), path (sel ! i)),
                        firstSeen (concat (map extractUrls (chunksOf i (handled (length sel) evs))))))
                 [0 ..< length sel]
       \<and> (\<forall>blk \<in> set (blockUrls (printed res)). distinct (snd blk))"
proof -
  have 1: "blockUrls (printed res)
           = map (\<lambda>i. ((branch (sel ! i), path (sel ! i)),
                        firstSeen (concat (map extractUrls (chunksOf i (handled (length sel) evs))))))
                 [0 ..< length sel]"
    by (rule blocks_in_run [OF assms])
  have "\<forall>blk \<in> set (blockUrls (printed res)). distinct (snd blk)"
    unfolding 1 by (auto simp: distinct_firstSeen)
  then show ?thesis using 1 by blast
qed

text \<open>Three chunks of one child, two of them with the same URL.\<close>

theorem summary_block_urls_witness:
  "\<exists>res. runCommand (Inr [\<lparr>path = ''/repo'', branch = ''main'', commit = ''0a1b2c3''\<rparr>]) True []
             ''pnpm dev'' None False
             [Data 0 ''ready on localhost:3000'', Data 0 ''Local: http://localhost:3000'',
              Data 0 ''still on localhost:3000'', Close 0 (Some 0)] = Some res
         \<and> blockUrls (printed res)
             = [((''main'', ''/repo''), [''localhost:3000'', ''http://localhost:3000''])]"
proof -
  let ?wt = "\<lparr>path = ''/repo'', branch = ''main'', commit = ''0a1b2c3''\<rparr>"
  let ?evs = "[Data 0 ''ready on localhost:3000'', Data 0 ''Local: http://localhost:3000'',
               Data 0 ''still on localhost:3000'', Close 0 (Some 0)]"
  have ne: "[?wt] \<noteq> []" and sel: "[?wt] = (if True then [?wt] else [])"
    by simp_all
  have "\<not> (\<exists>i<length [?wt]. outcomeOf i ?evs = Pending)"
    by (simp add: closeOutcome_def)
  then obtain res where run: "runCommand (Inr [?wt]) True [] ''pnpm dev'' None False ?evs = Some res"
    using runCommand_None [OF ne sel ne, where command = "''pnpm dev''" and route = None
        and verbose = False and evs = ?evs] by auto
  have x: "extractUrls ''ready on localhost:3000'' = [''localhost:3000'']"
    "extractUrls ''Local: http://localhost:3000'' = [''http://localhost:3000'']"
    "extractUrls ''still on localhost:3000'' = [''localhost:3000'']"
    by code_simp+
  have h: "handled (length [?wt]) ?evs = ?evs"
    by (simp add: handled_def)
  have "blockUrls (printed res)
          = map (\<lambda>i. ((branch ([?wt] ! i), path ([?wt] ! i)),
                       firstSeen (concat (map extractUrls (chunksOf i (handled (length [?wt]) ?evs))))))
                [0 ..< length [?wt]]"
    using summary_block_urls [OF run ne sel ne] by blast
  also have "\<dots> = [((''main'', ''/repo''), [''localhost:3000'', ''http://localhost:3000''])]"
    unfolding h by (simp add: x)
  finally show ?thesis using run by blast
qed

section \<open>Properties of the summary\<close>

text \<open>
  C4.  When \<open>runCommand\<close> returns after all children have settled, the entries it
  has kept are those of the selected worktrees in the order of the selection, and the
  URLs printed in the section of all services are the URLs of all entries taken in that
  order, each once at the place of its first occurrence: no URL twice, none missing.
  The same list results from the URLs printed in the blocks of the worktrees.
\<close>

theorem global_urls:
  assumes "runCommand (Inr worktrees) useAll selected command route verbose evs = Some res"
    and "worktrees \<noteq> []" and "sel = (if useAll then worktrees else selected)" and "sel \<noteq> []"
  shows "\<exists>st. awaitAllSettled verbose route (initialState command sel) evs = Some st
            \<and> map worktree (infos st) = sel
            \<and> concat (map serviceOf (printed res)) = firstSeen (concat (map urls (infos st)))
            \<and> concat (map serviceOf (printed res)) = firstSeen (concat (map urlOf (printed res)))
            \<and> distinct (concat (map serviceOf (printed res)))
            \<and> set (concat (map serviceOf (printed res))) = (\<Union>info \<in> set (infos st). set (urls info))"
proof -
  obtain st where join: "awaitAllSettled verbose route (initialState command sel) evs = Some st"
    and res: "res = \<lparr>printed = console st @ printSummary route st,
                     spawned = map (\<lambda>wt. (path wt, command)) sel, ending = Returns\<rparr>"
    using runCommand_Some [OF assms] by blast
  note js = joined_state [OF join]
  have s: "concat (map serviceOf (printed res)) = firstSeen (concat (map urls (infos st)))"
    by (simp add: res readings_live [OF js(4)] serviceOf_printSummary)
  have "map (\<lambda>i. firstSeen (urls (infos st ! i))) [0 ..< length (infos st)]
        = map firstSeen (map urls (infos st))"
    by (simp add: map_equality_iff)
  then have "firstSeen (concat (map urlOf (printSummary route st)))
             = firstSeen (concat (map urls (infos st)))"
    by (simp only: urlOf_printSummary firstSeen_concat_map)
  then have u: "firstSeen (concat (map urlOf (printed res))) = firstSeen (concat (map urls (infos st)))"
    by (simp add: res readings_live [OF js(4)])
  have "distinct (concat (map serviceOf (printed res)))"
    and "set (concat (map serviceOf (printed res))) = (\<Union>info \<in> set (infos st). set (urls info))"
    unfolding s by (simp_all add: distinct_firstSeen set_firstSeen)
  then show ?thesis using join js(3) s u by auto
qed

text \<open>
  The second worktree reports its URL first; the section lists the URLs in the order of
  the selection, and \<^verbatim>\<open>http://localhost:3000\<close>, found by both, once.
\<close>

theorem global_urls_witness:
  "\<exists>res. runCommand (Inr [\<lparr>path = ''/repo/a'', branch = ''a'', commit = ''1111111''\<rparr>,
                          \<lparr>path = ''/repo/b'', branch = ''b'', commit = ''2222222''\<rparr>]) True []
             ''pnpm dev'' None False
             [Data 1 ''Local: http://localhost:3001'', Data 0 ''Local: http://localhost:3000'',
              Data 1 ''proxying http://localhost:3000'', Close 0 (Some 0), Close 1 (Some 0)] = Some res
         \<and> concat (map serviceOf (printed res)) = [''http://localhost:3000'', ''http://localhost:3001'']"
proof -
  let ?a = "\<lparr>path = ''/repo/a'', branch = ''a'', commit = ''1111111''\<rparr>"
  let ?b = "\<lparr>path = ''/repo/b'', branch = ''b'', commit = ''2222222''\<rparr>"
  let ?evs = "[Data 1 ''Local: http://localhost:3001'', Data 0 ''Local: http://localhost:3000'',
               Data 1 ''proxying http://localhost:3000'', Close 0 (Some 0), Close 1 (Some 0)]"
  let ?st = "\<lparr>infos = [\<lparr>worktree = ?a, urls = [''http://localhost:3000''],
                       output = [''Local: http://localhost:3000'']\<rparr>,
                      \<lparr>worktree = ?b, urls = [''http://localhost:3001'', ''http://localhost:3000''],
                       output = [''Local: http://localhost:3001'', ''proxying http://localhost:3000'']\<rparr>],
             promises = [Fulfilled, Fulfilled],
             console = [RunningBanner ''pnpm dev'' 2,
                        TaggedLine Yellow ''b'' (Some Green) ''Local: http://localhost:3001'',
                        TaggedLine Cyan ''a'' (Some Green) ''Local: http://localhost:3000'',
                        TaggedLine Yellow ''b'' (Some Green) ''proxying http://localhost:3000'']\<rparr>"
  have x: "extractUrls ''Local: http://localhost:3001'' = [''http://localhost:3001'']"
    "extractUrls ''Local: http://localhost:3000'' = [''http://localhost:3000'']"
    "extractUrls ''proxying http://localhost:3000'' = [''http://localhost:3000'']"
    by code_simp+
  have p: "printChunk False None (Suc 0) ?b ''Local: http://localhost:3001''
             = [TaggedLine Yellow ''b'' (Some Green) ''Local: http://localhost:3001'']"
    "printChunk False None 0 ?a ''Local: http://localhost:3000''
             = [TaggedLine Cyan ''a'' (Some Green) ''Local: http://localhost:3000'']"
    "printChunk False None (Suc 0) ?b ''proxying http://localhost:3000''
             = [TaggedLine Yellow ''b'' (Some Green) ''proxying http://localhost:3000'']"
    by code_simp+
  have join: "awaitAllSettled False None (initialState ''pnpm dev'' [?a, ?b]) ?evs = Some ?st"
    by (simp add: awaitAllSettled_Cons awaitAllSettled_Nil initialState_def recordChunk_def
        settle_def closeOutcome_def x p)
  have ne: "[?a, ?b] \<noteq> []" and sel: "[?a, ?b] = (if True then [?a, ?b] else [])"
    by simp_all
  have run: "runCommand (Inr [?a, ?b]) True [] ''pnpm dev'' None False ?evs
               = Some \<lparr>printed = console ?st @ printSummary None ?st,
                       spawned = map (\<lambda>wt. (path wt, ''pnpm dev'')) [?a, ?b], ending = Returns\<rparr>"
    unfolding runCommand_def Let_def
    by (simp only: join sum.case if_True if_False list.distinct option.case)
  have "concat (map serviceOf (console ?st @ printSummary None ?st))
          = firstSeen (concat (map urls (infos ?st)))"
    using global_urls [OF run ne sel ne] join by auto
  also have "\<dots> = [''http://localhost:3000'', ''http://localhost:3001'']"
    by simp
  finally show ?thesis using run by simp
qed



section \<open>Properties of a run\<close>

text \<open>
  C5.  When no worktree is selected (none was found, or none was ticked at the prompt),
  \<open>runCommand\<close> prints the one notice and returns: whatever the children would have
  done, none is spawned, no summary line is printed, and the call ends by returning,
  not in the error exit.
\<close>

theorem empty_selection:
  assumes "(if useAll then worktrees else selected) = []"
  shows "runCommand (Inr worktrees) useAll selected command route verbose evs
           = Some \<lparr>printed = [if worktrees = [] then NoWorktreesFound else NoWorktreesSelected],
                   spawned = [], ending = Returns\<rparr>"
  using assms by (simp add: runCommand_def)

theorem empty_selection_witness:
  "(if False then [\<lparr>path = ''/repo'', branch = ''main'', commit = ''0a1b2c3''\<rparr>] else []) = []
   \<and> runCommand (Inr [\<lparr>path = ''/repo'', branch = ''main'', commit = ''0a1b2c3''\<rparr>]) False []
        ''pnpm dev'' None False [Data 0 ''ready'', Close 0 (Some 0)]
      = Some \<lparr>printed = [NoWorktreesSelected], spawned = [], ending = Returns\<rparr>"
  using empty_selection [of False "[\<lparr>path = ''/repo'', branch = ''main'', commit = ''0a1b2c3''\<rparr>]" "[]"
      "''pnpm dev''" None False "[Data 0 ''ready'', Close 0 (Some 0)]"]
  by simp




end
